theory Spec2Isabelle
  imports Complex_Main "HOL-Library.AList"
begin

section \<open>Errors\<close>

text \<open>
  The outcomes of the C++ code other than a normal return. \<open>Logic_error\<close> is a
  \<^verbatim>\<open>std::logic_error\<close> (thrown by the parser itself, or by Armadillo's bounds and size
  checks), \<open>Out_of_range\<close> the \<^verbatim>\<open>std::out_of_range\<close> of \<^verbatim>\<open>std::string::substr\<close>,
  and \<open>Undefined\<close> marks a point where the C++ has no defined behaviour (reading an
  uninitialised variable, \<^verbatim>\<open>std::vector::operator[]\<close> out of range, leaving a non-void
  function without a \<^verbatim>\<open>return\<close>, overflow of a signed integer): nothing is thrown there
  and nothing is returned.
\<close>

datatype error =
    Logic_error string
  | Out_of_range string
  | Undefined string

section \<open>Character streams: \<^verbatim>\<open>std::istringstream\<close>\<close>

text \<open>
  An input string stream is the text not yet read and the fail bit. Extraction with
  \<^verbatim>\<open>>>\<close> first builds a sentry: on a stream that has failed, or that holds only
  white space, the sentry fails, the fail bit is set and the variable is not written
  (result \<open>None\<close>). Otherwise the variable is written (\<open>Some v\<close>): with the parsed value,
  or with 0 and the fail bit set when no number is found (C++11).
\<close>

type_synonym iss = "string \<times> bool"

definition isspace :: "char \<Rightarrow> bool" where
  "isspace c = (c \<in> set [CHR '' '', CHR 0x09, CHR 0x0A, CHR 0x0B, CHR 0x0C, CHR 0x0D])"

definition isdigit :: "char \<Rightarrow> bool" where
  "isdigit c = (c \<in> set ''0123456789'')"

definition digit_val :: "char \<Rightarrow> nat" where
  "digit_val c = of_char c - 48"

definition digits_val :: "string \<Rightarrow> nat" where
  "digits_val ds = foldl (\<lambda>a c. 10 * a + digit_val c) 0 ds"

text \<open>An optional sign: whether it is a minus, and the text after it.\<close>

definition take_sign :: "string \<Rightarrow> bool \<times> string" where
  "take_sign b =
     (case b of
        [] \<Rightarrow> (False, [])
      | c # cs \<Rightarrow> if c = CHR ''-'' then (True, cs)
                 else if c = CHR ''+'' then (False, cs)
                 else (False, c # cs))"

text \<open>\<^verbatim>\<open>iss >> n\<close> for an \<^verbatim>\<open>int\<close> (32 bits; a value out of range is clamped and fails).\<close>

definition ext_int :: "iss \<Rightarrow> int option \<times> iss" where
  "ext_int s =
     (if snd s then (None, s)
      else
        let b = dropWhile isspace (fst s) in
        if b = [] then (None, ([], True))
        else
          let (neg, b1) = take_sign b;
              ds = takeWhile isdigit b1;
              r = dropWhile isdigit b1
          in
            if ds = [] then (Some 0, (r, True))
            else
              let v = (if neg then - int (digits_val ds) else int (digits_val ds)) in
              if v > 2147483647 then (Some 2147483647, (r, True))
              else if v < - 2147483648 then (Some (- 2147483648), (r, True))
              else (Some v, (r, False)))"

text \<open>
  \<^verbatim>\<open>iss >> x\<close> for a \<^verbatim>\<open>double\<close>. The accepted text is a decimal number
  \<^verbatim>\<open>[+-]digits[.digits][(e|E)[+-]digits]\<close> with at least one digit in the mantissa and,
  after an exponent letter, at least one exponent digit. The value is the real number the
  text denotes: rounding to binary64 is not modelled.
\<close>

definition pow10 :: "int \<Rightarrow> real" where
  "pow10 e = (if 0 \<le> e then 10 ^ nat e else 1 / 10 ^ nat (- e))"

text \<open>The fraction after the integer part: its digits and the text after them.\<close>

definition take_fraction :: "string \<Rightarrow> string \<times> string" where
  "take_fraction b =
     (case b of
        [] \<Rightarrow> ([], [])
      | c # cs \<Rightarrow> if c = CHR ''.'' then (takeWhile isdigit cs, dropWhile isdigit cs)
                 else ([], c # cs))"

text \<open>
  The exponent after the mantissa: \<open>Some e\<close> (0 when there is none), or \<open>None\<close> when
  an exponent letter is followed by no digit; and the text after it.
\<close>

definition take_exponent :: "string \<Rightarrow> int option \<times> string" where
  "take_exponent b =
     (case b of
        [] \<Rightarrow> (Some 0, [])
      | c # cs \<Rightarrow>
          if c = CHR ''e'' \<or> c = CHR ''E'' then
            let (eneg, b4) = take_sign cs;
                ed = takeWhile isdigit b4;
                b5 = dropWhile isdigit b4
            in
              if ed = [] then (None, b5)
              else (Some (if eneg then - int (digits_val ed) else int (digits_val ed)), b5)
          else (Some 0, c # cs))"

definition ext_double :: "iss \<Rightarrow> real option \<times> iss" where
  "ext_double s =
     (if snd s then (None, s)
      else
        let b = dropWhile isspace (fst s) in
        if b = [] then (None, ([], True))
        else
          let (neg, b1) = take_sign b;
              ip = takeWhile isdigit b1;
              b2 = dropWhile isdigit b1;
              (fp, b3) = take_fraction b2
          in
            if ip = [] \<and> fp = [] then (Some 0, (b3, True))
            else
              let m = real (digits_val ip) + real (digits_val fp) / 10 ^ length fp;
                  sm = (if neg then - m else m)
              in
                (case take_exponent b3 of
                   (None, b5) \<Rightarrow> (Some 0, (b5, True))
                 | (Some e, b5) \<Rightarrow> (Some (sm * pow10 e), (b5, False))))"

text \<open>\<^verbatim>\<open>iss >> str\<close> for a \<^verbatim>\<open>std::string\<close>: the next run of characters that are not white space.\<close>

definition ext_word :: "iss \<Rightarrow> string option \<times> iss" where
  "ext_word s =
     (if snd s then (None, s)
      else
        let b = dropWhile isspace (fst s) in
        if b = [] then (None, ([], True))
        else (Some (takeWhile (\<lambda>c. \<not> isspace c) b), (dropWhile (\<lambda>c. \<not> isspace c) b, False)))"

subsection \<open>Extraction loops\<close>

text \<open>
  A successful extraction of a number consumes at least one character, so the loops
  \<^verbatim>\<open>while (iss >> x)\<close> end. \<open>ext_ints\<close> and \<open>ext_doubles\<close> are the values such a loop
  reads, in order: the loop stops at the first extraction that leaves the fail bit set.
\<close>

lemma take_sign_length: "take_sign b = (neg, b1) \<Longrightarrow> length b1 \<le> length b"
  by (auto simp: take_sign_def split: list.splits if_splits)

lemma dropWhile_shorter:
  "takeWhile P b \<noteq> [] \<Longrightarrow> length (dropWhile P b) < length b"
  by (cases b) (auto simp: le_imp_less_Suc length_dropWhile_le split: if_splits)

lemma ext_int_consumes:
  assumes "ext_int s = (r, s')" and "\<not> snd s'"
  shows "length (fst s') < length (fst s)"
proof -
  obtain neg b1 where ts: "take_sign (dropWhile isspace (fst s)) = (neg, b1)"
    by (cases "take_sign (dropWhile isspace (fst s))")
  have l1: "length b1 \<le> length (fst s)"
    using take_sign_length [OF ts] length_dropWhile_le [of isspace "fst s"] by linarith
  from assms ts have "takeWhile isdigit b1 \<noteq> []" and "fst s' = dropWhile isdigit b1"
    by (auto simp: ext_int_def Let_def split: if_splits)
  with dropWhile_shorter [of isdigit b1] l1 show ?thesis by simp
qed

function ext_ints :: "iss \<Rightarrow> int list" where
  "ext_ints s =
     (case ext_int s of
        (Some v, s') \<Rightarrow> if snd s' then [] else v # ext_ints s'
      | (None, s') \<Rightarrow> [])"
  by pat_completeness auto
termination
proof (relation "measure (\<lambda>s. length (fst s))")
  fix s :: iss and x y x2 and s' :: iss
  assume "(x, s') = ext_int s" "\<not> snd s'"
  then show "(s', s) \<in> measure (\<lambda>s. length (fst s))"
    using ext_int_consumes [of s x s'] by simp
qed simp

declare ext_ints.simps [simp del]

lemma take_fraction_length:
  assumes "take_fraction b = (fp, b3)"
  shows "length b3 \<le> length b" and "fp \<noteq> [] \<Longrightarrow> length b3 < length b"
proof -
  show "length b3 \<le> length b"
  proof (cases b)
    case Nil
    with assms show ?thesis by (simp add: take_fraction_def)
  next
    case (Cons c cs)
    with assms length_dropWhile_le [of isdigit cs] show ?thesis
      by (auto simp: take_fraction_def split: if_splits)
  qed
  assume ne: "fp \<noteq> []"
  show "length b3 < length b"
  proof (cases b)
    case Nil
    with ne assms show ?thesis by (simp add: take_fraction_def)
  next
    case (Cons c cs)
    with ne assms length_dropWhile_le [of isdigit cs] show ?thesis
      by (auto simp: take_fraction_def split: if_splits)
  qed
qed

lemma take_exponent_length:
  assumes "take_exponent b = (e, b5)"
  shows "length b5 \<le> length b"
proof (cases b)
  case Nil
  with assms show ?thesis by (simp add: take_exponent_def)
next
  case (Cons c cs)
  obtain eneg b4 where ts: "take_sign cs = (eneg, b4)"
    by (cases "take_sign cs")
  have "length (dropWhile isdigit b4) \<le> length cs"
    using take_sign_length [OF ts] length_dropWhile_le [of isdigit b4] by linarith
  with assms Cons ts show ?thesis
    by (auto simp: take_exponent_def Let_def split: if_splits)
qed

lemma ext_double_consumes:
  assumes "ext_double s = (r, s')" and "\<not> snd s'"
  shows "length (fst s') < length (fst s)"
proof -
  obtain neg b1 where ts: "take_sign (dropWhile isspace (fst s)) = (neg, b1)"
    by (cases "take_sign (dropWhile isspace (fst s))")
  have l1: "length b1 \<le> length (fst s)"
    using take_sign_length [OF ts] length_dropWhile_le [of isspace "fst s"] by linarith
  obtain fp b3 where tf: "take_fraction (dropWhile isdigit b1) = (fp, b3)"
    by (cases "take_fraction (dropWhile isdigit b1)")
  obtain e b5 where te: "take_exponent b3 = (e, b5)"
    by (cases "take_exponent b3")
  from assms ts tf te have ne: "takeWhile isdigit b1 \<noteq> [] \<or> fp \<noteq> []" and r: "fst s' = b5"
    by (auto simp: ext_double_def Let_def split: if_splits option.splits)
  have "length b3 < length b1"
    using ne dropWhile_shorter [of isdigit b1] take_fraction_length [OF tf]
      length_dropWhile_le [of isdigit b1]
    by auto
  with take_exponent_length [OF te] l1 r show ?thesis by simp
qed

function ext_doubles :: "iss \<Rightarrow> real list" where
  "ext_doubles s =
     (case ext_double s of
        (Some v, s') \<Rightarrow> if snd s' then [] else v # ext_doubles s'
      | (None, s') \<Rightarrow> [])"
  by pat_completeness auto
termination
proof (relation "measure (\<lambda>s. length (fst s))")
  fix s :: iss and x y x2 and s' :: iss
  assume "(x, s') = ext_double s" "\<not> snd s'"
  then show "(s', s) \<in> measure (\<lambda>s. length (fst s))"
    using ext_double_consumes [of s x s'] by simp
qed simp

declare ext_doubles.simps [simp del]

text \<open>
  A variable that may not have been written yet is an option, \<open>None\<close> for an
  indeterminate value; \<open>assign\<close> is what an extraction does to it.
\<close>

definition assign :: "'a option \<Rightarrow> 'a option \<Rightarrow> 'a option" where
  "assign new old = (case new of None \<Rightarrow> old | Some v \<Rightarrow> Some v)"

section \<open>The input file: \<^verbatim>\<open>std::ifstream\<close> read by lines\<close>

text \<open>
  The file is the list of its lines still to be read (each ended by a newline in the
  file) and the fail bit. \<^verbatim>\<open>std::getline\<close> on a failed stream leaves the string as it
  is; at the end of the file it clears the string and sets the fail bit.
\<close>

record stream =
  slines :: "string list"
  sfail :: bool

definition getline :: "stream \<Rightarrow> string \<Rightarrow> bool \<times> string \<times> stream" where
  "getline f cur =
     (if sfail f then (False, cur, f)
      else (case slines f of
              [] \<Rightarrow> (False, [], f\<lparr>sfail := True\<rparr>)
            | l # ls \<Rightarrow> (True, l, f\<lparr>slines := ls\<rparr>)))"

section \<open>Vectors and matrices\<close>

type_synonym rowvec = "real list"
type_synonym mat = "real list list"
type_synonym cx_mat = "complex list list"

text \<open>\<^verbatim>\<open>arma::norm\<close> of a row: the Euclidean norm.\<close>

definition norm_row :: "rowvec \<Rightarrow> real" where
  "norm_row v = sqrt (sum_list (map (\<lambda>x. x * x) v))"

definition shed_row :: "'a list \<Rightarrow> nat \<Rightarrow> 'a list" where
  "shed_row m i = take i m @ drop (Suc i) m"

section \<open>The parser's state\<close>

text \<open>
  The assembled record \<^verbatim>\<open>systemInfo\<close>. \<^verbatim>\<open>norbitals\<close> is an \<^verbatim>\<open>arma::urowvec\<close>: its
  entries are unsigned 64-bit integers, kept here as naturals below \<open>2 ^ 64\<close>.
\<close>

record system_info =
  info_ndim :: int
  info_bravaisLattice :: mat
  info_motif :: mat
  info_filling :: real
  info_bravaisVectors :: mat
  info_overlap :: "cx_mat list"
  info_norbitals :: "nat list"
  info_hamiltonian :: "cx_mat list"

text \<open>
  The data members of \<^verbatim>\<open>CrystalDFTConfiguration\<close> that the methods read and write. The
  class declaration is not among the source files; the members and their types are taken
  from their uses. A cube (\<^verbatim>\<open>arma::cx_cube\<close>) is the list of its slices, and a
  \<^verbatim>\<open>std::map\<close> the list of its entries, written with \<open>AList.update\<close> and read with
  \<open>map_of\<close>.
\<close>

record config =
  m_file :: stream
  bravaisLattice :: mat
  ndim :: int
  natoms :: int
  nshells :: int
  norbitals :: int
  totalElectrons :: int
  coreElectrons :: int
  motif :: mat
  shellsPerSpecies :: "int list"
  nspecies :: int
  orbitalsPerSpecies :: "int list"
  gaussianCoefficients :: "(int \<times> real list list list) list"
  shellTypesPerSpecies :: "(int \<times> string list) list"
  bravaisVectors :: mat
  overlapMatrices :: "cx_mat list"
  fockMatrices :: "cx_mat list"
  alphaMatrices :: "cx_mat list"
  betaMatrices :: "cx_mat list"
  SOC_FLAG :: bool
  MAGNETIC_FLAG :: bool
  alpha_electrons :: bool
  systemInfo :: system_info

section \<open>Lattice and dimension\<close>

text \<open>
  \<^verbatim>\<open>extractDimension\<close>: the loop index runs over the rows of the lattice while rows are
  removed from it; the bound \<^verbatim>\<open>bravaisLattice.n_rows\<close> is read again at every iteration.
\<close>

function extractDimension_loop :: "real \<Rightarrow> nat \<Rightarrow> mat \<Rightarrow> mat" where
  "extractDimension_loop threshold i lat =
     (if i < length lat then
        (if norm_row (lat ! i) > threshold
         then extractDimension_loop threshold (i + 1) (shed_row lat i)
         else extractDimension_loop threshold (i + 1) lat)
      else lat)"
  by pat_completeness auto
termination
  by (relation "measure (\<lambda>(t, i, lat). length lat - i)") (auto simp: shed_row_def)

declare extractDimension_loop.simps [simp del]

definition extractDimension :: "real \<Rightarrow> config \<Rightarrow> config" where
  "extractDimension threshold this =
     (let lat = extractDimension_loop threshold 0 (bravaisLattice this)
      in this\<lparr>bravaisLattice := lat, ndim := int (length lat)\<rparr>)"

section \<open>The matrix block reader\<close>

definition zeros_cx :: "nat \<Rightarrow> nat \<Rightarrow> cx_mat" where
  "zeros_cx r c = replicate r (replicate c 0)"

text \<open>
  \<^verbatim>\<open>matrix(r, c) = v\<close> with Armadillo's bounds check; the signed indices are converted
  to unsigned ones, so a negative index is out of bounds as well.
\<close>

definition set_elem :: "cx_mat \<Rightarrow> int \<Rightarrow> int \<Rightarrow> complex \<Rightarrow> error + cx_mat" where
  "set_elem m r c v =
     (if 0 \<le> r \<and> r < int (length m) \<and> 0 \<le> c \<and> c < int (length (m ! nat r))
      then Inr (m[nat r := (m ! nat r)[nat c := v]])
      else Inl (Logic_error ''Mat::operator(): index out of bounds''))"

text \<open>
  The inner loop of \<^verbatim>\<open>parseMatrix\<close> over the values \<^verbatim>\<open>coef\<close> of one data line:
  \<open>i\<close> counts them, \<open>colIndex\<close> keeps the last column written.
\<close>

fun scatter :: "int list \<Rightarrow> int \<Rightarrow> real list \<Rightarrow> nat \<Rightarrow> int \<Rightarrow> cx_mat \<Rightarrow> error + (int \<times> cx_mat)" where
  "scatter colIndices rowIndex [] i colIndex matrix = Inr (colIndex, matrix)"
| "scatter colIndices rowIndex (coef # coefs) i colIndex matrix =
     (if i < length colIndices then
        (case set_elem matrix (rowIndex - 1) (colIndices ! i - 1) (complex_of_real coef) of
           Inl e \<Rightarrow> Inl e
         | Inr matrix' \<Rightarrow> scatter colIndices rowIndex coefs (i + 1) (colIndices ! i) matrix')
      else Inl (Undefined ''colIndices[i]: index past the end of the vector''))"

text \<open>The local variables of \<^verbatim>\<open>parseMatrix\<close> that live across iterations of its loop.\<close>

record pm_locals =
  pm_line :: string
  pm_matrix :: cx_mat
  pm_colIndicesStr :: string
  pm_colIndices :: "int list"
  pm_colIndex :: int
  pm_rowIndex :: int

text \<open>
  One pass through the body of the \<^verbatim>\<open>while\<close> loop of \<^verbatim>\<open>parseMatrix\<close>, entered with the
  line just read in \<open>pm_line\<close>: \<open>Inr (Inl (matrix, this))\<close> is the \<^verbatim>\<open>return\<close>,
  \<open>Inr (Inr (this, locals))\<close> the state at the next test of the loop condition.
\<close>

definition parseMatrix_body ::
  "config \<Rightarrow> pm_locals \<Rightarrow> error + ((cx_mat \<times> config) + (config \<times> pm_locals))" where
  "parseMatrix_body this st =
     (let (this1, st1) =
        (if pm_line st = [] then
           (let (ok2, colIndicesStr, f2) = getline (m_file this) (pm_colIndicesStr st);
                (ok3, line, f3) = getline f2 (pm_line st)
            in (this\<lparr>m_file := f3\<rparr>,
                st\<lparr>pm_line := line, pm_colIndicesStr := colIndicesStr,
                   pm_colIndices := ext_ints (colIndicesStr, False)\<rparr>))
         else (this, st))
      in
        if pm_line st = [] \<and> pm_line st1 = [] then Inr (Inr (this1, st1))
        else
          (let (r, s) = ext_int (pm_line st1, False);
               rowIndex = (case r of None \<Rightarrow> pm_rowIndex st1 | Some v \<Rightarrow> v)
           in
             case scatter (pm_colIndices st1) rowIndex (ext_doubles s) 0
                    (pm_colIndex st1) (pm_matrix st1) of
               Inl e \<Rightarrow> Inl e
             | Inr (colIndex, matrix) \<Rightarrow>
                 if rowIndex = norbitals this \<and> colIndex = norbitals this
                 then Inr (Inl (matrix, this1))
                 else Inr (Inr (this1, st1\<lparr>pm_matrix := matrix, pm_colIndex := colIndex,
                                            pm_rowIndex := rowIndex\<rparr>))))"

lemma getline_length:
  "getline f cur = (ok, l, f') \<Longrightarrow> length (slines f') \<le> length (slines f)"
  by (auto simp: getline_def split: if_splits list.splits)

lemma getline_ok_length:
  "getline f cur = (True, l, f') \<Longrightarrow> length (slines f') < length (slines f)"
  by (auto simp: getline_def split: if_splits list.splits)

lemma parseMatrix_body_length:
  assumes "parseMatrix_body this st = Inr (Inr (this', st'))"
  shows "length (slines (m_file this')) \<le> length (slines (m_file this))"
proof -
  obtain ok2 cs f2 where g2: "getline (m_file this) (pm_colIndicesStr st) = (ok2, cs, f2)"
    by (metis prod_cases3)
  obtain ok3 l3 f3 where g3: "getline f2 (pm_line st) = (ok3, l3, f3)"
    by (metis prod_cases3)
  have "length (slines f3) \<le> length (slines (m_file this))"
    using getline_length [OF g2] getline_length [OF g3] by linarith
  with assms g2 g3 show ?thesis
    by (auto simp: parseMatrix_body_def Let_def split: if_splits prod.splits sum.splits)
qed

text \<open>
  The \<^verbatim>\<open>while\<close> loop of \<^verbatim>\<open>parseMatrix\<close>. When \<^verbatim>\<open>std::getline\<close> fails the loop is left
  and the end of the function is reached: no \<^verbatim>\<open>return\<close> statement, no exception.
\<close>

function parseMatrix_loop :: "config \<Rightarrow> pm_locals \<Rightarrow> error + (cx_mat \<times> config)" where
  "parseMatrix_loop this st =
     (case getline (m_file this) (pm_line st) of
        (ok, line, f) \<Rightarrow>
          if \<not> ok then Inl (Undefined ''parseMatrix: end of the function reached without a return'')
          else
            (case parseMatrix_body (this\<lparr>m_file := f\<rparr>) (st\<lparr>pm_line := line\<rparr>) of
               Inl e \<Rightarrow> Inl e
             | Inr (Inl result) \<Rightarrow> Inr result
             | Inr (Inr (this', st')) \<Rightarrow> parseMatrix_loop this' st'))"
  by pat_completeness auto
termination
  apply (relation "measure (\<lambda>(this, st). length (slines (m_file this)))")
   apply simp
  apply clarsimp
  apply (drule parseMatrix_body_length)
  apply (drule getline_ok_length [OF sym])
  apply simp
  done

declare parseMatrix_loop.simps [simp del]

text \<open>
  \<^verbatim>\<open>parseMatrix\<close>: the matrix starts as \<^verbatim>\<open>arma::zeros(norbitals, norbitals)\<close>, whose
  size check refuses a negative \<^verbatim>\<open>norbitals\<close> (converted to a huge unsigned size).
\<close>

definition parseMatrix :: "config \<Rightarrow> error + (cx_mat \<times> config)" where
  "parseMatrix this =
     (if norbitals this < 0 then Inl (Logic_error ''Mat::init(): requested size is too large'')
      else parseMatrix_loop this
             \<lparr>pm_line = [],
              pm_matrix = zeros_cx (nat (norbitals this)) (nat (norbitals this)),
              pm_colIndicesStr = [], pm_colIndices = [], pm_colIndex = 0, pm_rowIndex = 0\<rparr>)"

section \<open>Printed matrices\<close>

text \<open>
  The text the block reader is meant for, written after the description of the format: a
  matrix \<open>M\<close> of dimension \<open>D\<close> is printed in blocks of columns, each block a blank line,
  a line of the 1-based column indices and one line per row with the 1-based row index
  and the values of the row in these columns. Numbers are separated by a blank. How a
  number is printed is left open: \<open>fmt_i\<close> and \<open>fmt_d\<close> are any printers whose output the
  extractions \<^verbatim>\<open>>>\<close> read back when it is followed by white space or by the end of the
  line.
\<close>

text \<open>A file about to be read: its lines, and the fail bit clear.\<close>

abbreviation file_of :: "string list \<Rightarrow> stream" where
  "file_of ls \<equiv> \<lparr>slines = ls, sfail = False\<rparr>"

definition reads_int :: "(int \<Rightarrow> string) \<Rightarrow> int \<Rightarrow> bool" where
  "reads_int fmt_i n =
     (\<forall>rest. rest = [] \<or> isspace (hd rest) \<longrightarrow>
        ext_int (fmt_i n @ rest, False) = (Some n, (rest, False)))"

definition reads_double :: "(real \<Rightarrow> string) \<Rightarrow> real \<Rightarrow> bool" where
  "reads_double fmt_d v =
     (\<forall>rest. rest = [] \<or> isspace (hd rest) \<longrightarrow>
        ext_double (fmt_d v @ rest, False) = (Some v, (rest, False)))"

definition cols_line :: "(int \<Rightarrow> string) \<Rightarrow> int list \<Rightarrow> string" where
  "cols_line fmt_i cs = concat (map (\<lambda>c. CHR '' '' # fmt_i c) cs)"

definition vals_text :: "(real \<Rightarrow> string) \<Rightarrow> real list \<Rightarrow> string" where
  "vals_text fmt_d vs = concat (map (\<lambda>v. CHR '' '' # fmt_d v) vs)"

definition row_line :: "(int \<Rightarrow> string) \<Rightarrow> (real \<Rightarrow> string) \<Rightarrow> mat \<Rightarrow> int list \<Rightarrow> int \<Rightarrow> string" where
  "row_line fmt_i fmt_d M cs r =
     fmt_i r @ vals_text fmt_d (map (\<lambda>c. M ! nat (r - 1) ! nat (c - 1)) cs)"

definition block_text ::
  "(int \<Rightarrow> string) \<Rightarrow> (real \<Rightarrow> string) \<Rightarrow> mat \<Rightarrow> nat \<Rightarrow> int list \<Rightarrow> string list" where
  "block_text fmt_i fmt_d M D cs =
     [] # cols_line fmt_i cs # map (row_line fmt_i fmt_d M cs) [1..int D]"

definition blocked_text ::
  "(int \<Rightarrow> string) \<Rightarrow> (real \<Rightarrow> string) \<Rightarrow> mat \<Rightarrow> nat \<Rightarrow> int list list \<Rightarrow> string list" where
  "blocked_text fmt_i fmt_d M D bs = concat (map (block_text fmt_i fmt_d M D) bs)"

text \<open>\<open>M\<close> is a square matrix of dimension \<open>D\<close> whose indices and entries the printers can print.\<close>

definition printable :: "(int \<Rightarrow> string) \<Rightarrow> (real \<Rightarrow> string) \<Rightarrow> mat \<Rightarrow> nat \<Rightarrow> bool" where
  "printable fmt_i fmt_d M D =
     (length M = D \<and> (\<forall>row\<in>set M. length row = D) \<and>
      (\<forall>n\<in>{1..int D}. reads_int fmt_i n) \<and>
      (\<forall>row\<in>set M. \<forall>v\<in>set row. reads_double fmt_d v))"

text \<open>The dense reference matrix, with the real values stored as complex numbers.\<close>

definition cx_of :: "mat \<Rightarrow> cx_mat" where
  "cx_of M = map (map complex_of_real) M"

text \<open>
  The matrix whose entries are those of \<open>M\<close> where \<open>P\<close> holds and 0 elsewhere: the state of
  the reader's matrix when the entries in \<open>P\<close> have been read.
\<close>

definition partial_cx :: "mat \<Rightarrow> nat \<Rightarrow> (nat \<Rightarrow> nat \<Rightarrow> bool) \<Rightarrow> cx_mat" where
  "partial_cx M D P =
     map (\<lambda>a. map (\<lambda>b. if P a b then complex_of_real (M ! a ! b) else 0) [0..<D]) [0..<D]"

section \<open>A freshly constructed object\<close>

text \<open>
  Modelled from the spec: the member initialisers of the class declaration
  (\<^verbatim>\<open>CrystalDFTConfiguration.hpp\<close>, not among the source files). The object that
  \<^verbatim>\<open>parseContent\<close> starts from has its counts at 0 (the spec's "atom count still 0"), its
  containers empty, the spin-orbit and magnetic flags unset and the "currently reading
  alpha spin" flag set (the scanner only ever sets it to false).
\<close>

definition new_config :: "stream \<Rightarrow> config" where
  "new_config f =
     \<lparr>m_file = f, bravaisLattice = [], ndim = 0, natoms = 0, nshells = 0, norbitals = 0,
      totalElectrons = 0, coreElectrons = 0, motif = [], shellsPerSpecies = [], nspecies = 0,
      orbitalsPerSpecies = [], gaussianCoefficients = [],
      shellTypesPerSpecies = [], bravaisVectors = [], overlapMatrices = [],
      fockMatrices = [], alphaMatrices = [], betaMatrices = [], SOC_FLAG = False,
      MAGNETIC_FLAG = False, alpha_electrons = True,
      systemInfo = \<lparr>info_ndim = 0, info_bravaisLattice = [], info_motif = [],
        info_filling = 0, info_bravaisVectors = [], info_overlap = [], info_norbitals = [],
        info_hamiltonian = []\<rparr>\<rparr>"

section \<open>Example printers\<close>

text \<open>
  Printers for the matrix with rows (1.5, -2) and (0, 4): indices right-aligned in three
  columns, values in the exponent notation of the file.
\<close>

definition ex_fmt_i :: "int \<Rightarrow> string" where
  "ex_fmt_i n = (if n = 1 then ''  1'' else ''  2'')"

definition ex_fmt_d :: "real \<Rightarrow> string" where
  "ex_fmt_d v = (if v = 3 / 2 then ''1.5000E+00'' else if v = - 2 then ''-2.0000E+00''
                 else if v = 0 then ''0.0000E+00'' else ''4.0000E+00'')"

section \<open>Atoms and species\<close>

text \<open>
  The local variables of \<^verbatim>\<open>parseAtoms\<close>. \<^verbatim>\<open>nshells\<close>, \<^verbatim>\<open>x\<close>, \<^verbatim>\<open>y\<close> and \<^verbatim>\<open>z\<close> are
  declared without a value and keep what the last successful extraction wrote.
  (\<^verbatim>\<open>index\<close> and \<^verbatim>\<open>natom\<close> are extracted and never read.)
\<close>

record pa_locals =
  pa_line :: string
  pa_nshells :: "int option"
  pa_x :: "real option"
  pa_y :: "real option"
  pa_z :: "real option"
  pa_chemical_species :: string
  pa_shellsPerSpecies :: "int list"
  pa_chemical_species_to_index :: "(string \<times> int) list"
  pa_species :: "string list"
  pa_motif :: mat
  pa_nspecies :: int

text \<open>
  \<^verbatim>\<open>iss >> index >> natom >> chemical_species >> nshells >> x >> y >> z\<close>: what the
  chain writes to each variable (\<open>None\<close>: not written), and the fail bit at its end.
\<close>

definition atom_fields ::
  "string \<Rightarrow> (string option \<times> int option \<times> real option \<times> real option \<times> real option) \<times> bool" where
  "atom_fields line =
     (let (index, s1) = ext_int (line, False);
          (natom, s2) = ext_int s1;
          (chemical_species, s3) = ext_word s2;
          (nsh, s4) = ext_int s3;
          (x, s5) = ext_double s4;
          (y, s6) = ext_double s5;
          (z, s7) = ext_double s6
      in ((chemical_species, nsh, x, y, z), snd s7))"

text \<open>
  One pass through the body of the \<^verbatim>\<open>for\<close> loop of \<^verbatim>\<open>parseAtoms\<close>, for atom \<open>i\<close>.
  In \<^verbatim>\<open>chemical_species_to_index[chemical_species] = chemical_species_to_index.size()\<close>
  the size is taken before the key is inserted (the right operand of an assignment is
  evaluated first, C++17). \<^verbatim>\<open>operator[]\<close> of the map inserts 0 for a key it does not
  hold.
\<close>

definition parseAtoms_body :: "nat \<Rightarrow> stream \<Rightarrow> pa_locals \<Rightarrow> error + (stream \<times> pa_locals)" where
  "parseAtoms_body i f st =
     (let (ok, line, f1) = getline f (pa_line st);
          ((cs, nsh, x, y, z), failed) = atom_fields line;
          st1 = st\<lparr>pa_line := line,
                   pa_chemical_species := (case cs of None \<Rightarrow> pa_chemical_species st | Some w \<Rightarrow> w),
                   pa_nshells := assign nsh (pa_nshells st),
                   pa_x := assign x (pa_x st), pa_y := assign y (pa_y st),
                   pa_z := assign z (pa_z st)\<rparr>;
          chemical_species = pa_chemical_species st1
      in
        case (if chemical_species \<notin> set (pa_species st1) then
                (case pa_nshells st1 of
                   None \<Rightarrow> Inl (Undefined ''parseAtoms: nshells read before it is written'')
                 | Some nsh1 \<Rightarrow>
                     Inr (st1\<lparr>pa_species := pa_species st1 @ [chemical_species],
                              pa_shellsPerSpecies := pa_shellsPerSpecies st1 @ [nsh1],
                              pa_chemical_species_to_index :=
                                AList.update chemical_species
                                  (int (length (pa_chemical_species_to_index st1)))
                                  (pa_chemical_species_to_index st1),
                              pa_nspecies := pa_nspecies st1 + 1\<rparr>))
              else Inr st1) of
          Inl e \<Rightarrow> Inl e
        | Inr st2 \<Rightarrow>
            (let (index, st3) =
                   (case map_of (pa_chemical_species_to_index st2) chemical_species of
                      Some v \<Rightarrow> (v, st2)
                    | None \<Rightarrow> (0, st2\<lparr>pa_chemical_species_to_index :=
                                        AList.update chemical_species 0
                                          (pa_chemical_species_to_index st2)\<rparr>))
             in
               case (pa_x st3, pa_y st3, pa_z st3) of
                 (Some x, Some y, Some z) \<Rightarrow>
                   if i < length (pa_motif st3)
                   then Inr (f1, st3\<lparr>pa_motif := (pa_motif st3)[i := [x, y, z, real_of_int index]]\<rparr>)
                   else Inl (Logic_error ''Mat::row(): index out of bounds'')
               | _ \<Rightarrow> Inl (Undefined ''parseAtoms: coordinate read before it is written'')))"

fun parseAtoms_loop :: "nat \<Rightarrow> nat \<Rightarrow> stream \<Rightarrow> pa_locals \<Rightarrow> error + (stream \<times> pa_locals)" where
  "parseAtoms_loop 0 i f st = Inr (f, st)"
| "parseAtoms_loop (Suc k) i f st =
     (case parseAtoms_body i f st of
        Inl e \<Rightarrow> Inl e
      | Inr (f', st') \<Rightarrow> parseAtoms_loop k (i + 1) f' st')"

text \<open>
  \<^verbatim>\<open>parseAtoms\<close>. The motif starts as \<^verbatim>\<open>arma::zeros(natoms, 4)\<close>. After the loop the
  row of the first atom is read into \<^verbatim>\<open>refAtom\<close> (with Armadillo's bounds check) and not
  used: the loop that subtracts it from every row is commented out in the source.
\<close>

definition parseAtoms :: "config \<Rightarrow> error + config" where
  "parseAtoms this =
     (if natoms this < 0 then Inl (Logic_error ''Mat::init(): requested size is too large'')
      else
        (let (ok, line, f1) = getline (m_file this) []
         in
           case parseAtoms_loop (nat (natoms this)) 0 f1
                  \<lparr>pa_line = line, pa_nshells = None, pa_x = None, pa_y = None, pa_z = None,
                   pa_chemical_species = [], pa_shellsPerSpecies = [],
                   pa_chemical_species_to_index = [], pa_species = [],
                   pa_motif = replicate (nat (natoms this)) [0, 0, 0, 0], pa_nspecies = 0\<rparr> of
             Inl e \<Rightarrow> Inl e
           | Inr (f2, st) \<Rightarrow>
               if pa_motif st = [] then Inl (Logic_error ''Mat::row(): index out of bounds'')
               else Inr (this\<lparr>m_file := f2, motif := pa_motif st,
                              shellsPerSpecies := pa_shellsPerSpecies st,
                              nspecies := pa_nspecies st\<rparr>)))"

section \<open>Atom records\<close>

text \<open>
  A line is an atom record when the whole extraction chain of \<^verbatim>\<open>parseAtoms\<close> succeeds
  on it; the record is the species label, the shell count and the position.
\<close>

definition atom_record :: "string \<Rightarrow> (string \<times> int \<times> real \<times> real \<times> real) option" where
  "atom_record line =
     (case atom_fields line of
        ((Some l, Some n, Some x, Some y, Some z), False) \<Rightarrow> Some (l, n, x, y, z)
      | _ \<Rightarrow> None)"

text \<open>
  First-seen order: the index of a label is the number of distinct labels that occur
  before its first occurrence, and \<open>first_seen\<close> lists the labels by first occurrence.
\<close>

definition species_index :: "string list \<Rightarrow> string \<Rightarrow> nat" where
  "species_index labels l = card (set (takeWhile (\<lambda>s. s \<noteq> l) labels))"

definition first_seen :: "string list \<Rightarrow> string list" where
  "first_seen labels = rev (remdups (rev labels))"

text \<open>The motif row of a record: its position and the species index as a number.\<close>

definition motif_row :: "string list \<Rightarrow> string \<times> int \<times> real \<times> real \<times> real \<Rightarrow> real list" where
  "motif_row labels r = (case r of (l, n, x, y, z) \<Rightarrow> [x, y, z, real (species_index labels l)])"

text \<open>The shell count on the first record of a species.\<close>

definition first_shells :: "(string \<times> int \<times> real \<times> real \<times> real) list \<Rightarrow> string \<Rightarrow> int" where
  "first_shells recs l = (case map_of recs l of Some (n, x, y, z) \<Rightarrow> n | None \<Rightarrow> 0)"

text \<open>
  The state of the loop of \<^verbatim>\<open>parseAtoms\<close> when the records \<open>prs\<close> of \<open>n\<close> atoms have been
  read; \<open>labels\<close> are the labels of all the records of the section.
\<close>

definition pa_inv :: "nat \<Rightarrow> string list \<Rightarrow> (string \<times> int \<times> real \<times> real \<times> real) list \<Rightarrow> pa_locals \<Rightarrow> bool" where
  "pa_inv n labels prs st =
     (pa_species st = first_seen (map fst prs) \<and>
      map_of (pa_chemical_species_to_index st) =
        (\<lambda>l. if l \<in> fst ` set prs then Some (int (species_index (map fst prs) l)) else None) \<and>
      length (pa_chemical_species_to_index st) = card (fst ` set prs) \<and>
      pa_shellsPerSpecies st = map (first_shells prs) (first_seen (map fst prs)) \<and>
      pa_nspecies st = int (card (fst ` set prs)) \<and>
      pa_motif st = map (motif_row labels) prs @ replicate (n - length prs) [0, 0, 0, 0])"

section \<open>The atomic basis\<close>

text \<open>
  \<^verbatim>\<open>split\<close>: the numbers a line starts with, read as \<^verbatim>\<open>double\<close> until an extraction
  fails. (The function returns their count; the callers use the vector it fills.)
\<close>

definition split :: "string \<Rightarrow> real list" where
  "split txt = ext_doubles (txt, False)"

text \<open>
  The local variables of \<^verbatim>\<open>parseAtomicBasis\<close>. The local \<^verbatim>\<open>norbitals\<close> hides the member
  of the same name and is declared without a value.
\<close>

record pb_locals =
  pb_line :: string
  pb_chemical_species :: string
  pb_norbitals :: "int option"
  pb_totalOrbitals :: int
  pb_nspecies :: int
  pb_shellType :: string
  pb_shellTypes :: "string list"
  pb_gaussianCoefficients :: "real list list list"
  pb_species :: "string list"

text \<open>
  The loop that reads the table of Gaussian coefficients of one shell: lines are taken
  while they hold exactly 4 numbers. The first line that does not is given back to the
  stream (\<^verbatim>\<open>seekg\<close> to the position saved before it was read). The four extractions
  \<^verbatim>\<open>iss >> exponent >> sCoef >> pCoef >> dCoef\<close> read again the four numbers that
  \<^verbatim>\<open>split\<close> found.
\<close>

function coef_loop :: "stream \<Rightarrow> string \<Rightarrow> real list list \<Rightarrow> stream \<times> string \<times> real list list" where
  "coef_loop f line coefList =
     (case getline f line of
        (ok, line', f') \<Rightarrow>
          if \<not> ok then (f', line', coefList)
          else if length (split line') \<noteq> 4 then (f, line', coefList)
          else coef_loop f' line' (coefList @ [split line']))"
  by pat_completeness auto
termination
  apply (relation "measure (\<lambda>(f, line, coefList). length (slines f))")
   apply simp
  apply clarsimp
  apply (drule getline_ok_length [OF sym])
  apply simp
  done

declare coef_loop.simps [simp del]

text \<open>
  \<^verbatim>\<open>iss >> norbitals >> shellType\<close>, and once more when the type read is the
  placeholder \<^verbatim>\<open>-\<close>: what the header line of a shell leaves in the two variables.
\<close>

definition shell_fields :: "string \<Rightarrow> int option \<Rightarrow> string \<Rightarrow> int option \<times> string" where
  "shell_fields line norb shellType =
     (let (n1, s1) = ext_int (line, False);
          (t1, s2) = ext_word s1;
          norb1 = assign n1 norb;
          shellType1 = (case t1 of None \<Rightarrow> shellType | Some w \<Rightarrow> w)
      in
        if shellType1 = ''-'' then
          (let (n2, s3) = ext_int s2;
               (t2, s4) = ext_word s3
           in (assign n2 norb1, (case t2 of None \<Rightarrow> shellType1 | Some w \<Rightarrow> w)))
        else (norb1, shellType1))"

text \<open>One pass through the body of the loop over the shells of a new species.\<close>

definition shell_body :: "config \<Rightarrow> pb_locals \<Rightarrow> config \<times> pb_locals" where
  "shell_body this st =
     (let (ok, line, f1) = getline (m_file this) (pb_line st);
          (norb, shellType) = shell_fields line (pb_norbitals st) (pb_shellType st);
          (f2, line2, coefList) = coef_loop f1 line [];
          gc = pb_gaussianCoefficients st @ [coefList]
      in (this\<lparr>m_file := f2,
                gaussianCoefficients := AList.update (pb_nspecies st) gc (gaussianCoefficients this)\<rparr>,
          st\<lparr>pb_line := line2, pb_norbitals := norb, pb_shellType := shellType,
             pb_shellTypes := pb_shellTypes st @ [shellType],
             pb_gaussianCoefficients := gc\<rparr>))"

fun shell_loop :: "nat \<Rightarrow> config \<Rightarrow> pb_locals \<Rightarrow> config \<times> pb_locals" where
  "shell_loop 0 this st = (this, st)"
| "shell_loop (Suc k) this st = (case shell_body this st of (this', st') \<Rightarrow> shell_loop k this' st')"

text \<open>
  The values of an \<^verbatim>\<open>int\<close> (32 bits). The difference \<^verbatim>\<open>norbitals - totalOrbitals\<close> and
  the sum \<^verbatim>\<open>totalOrbitals += ...\<close> of \<^verbatim>\<open>parseAtomicBasis\<close> are computed in \<^verbatim>\<open>int\<close>: a
  result outside of this range is a signed overflow, which has no defined behaviour.
\<close>

definition int_fits :: "int \<Rightarrow> bool" where
  "int_fits v \<longleftrightarrow> - (2 ^ 31) \<le> v \<and> v < 2 ^ 31"

text \<open>
  One pass through the body of the loop over the atoms, for atom \<open>atomIndex\<close>: first
  the branch of a species not seen before, which reads its shells and derives its number
  of orbitals, then the branch of a species already seen (\<^verbatim>\<open>continue\<close>).
  \<^verbatim>\<open>motif.row(atomIndex)(3)\<close> is checked by Armadillo; the number found is converted to
  an index of \<^verbatim>\<open>orbitalsPerSpecies\<close>, and \<^verbatim>\<open>std::vector::operator[]\<close> is not checked,
  as for \<^verbatim>\<open>shellsPerSpecies[nspecies]\<close>.
\<close>

definition atom_body :: "nat \<Rightarrow> config \<Rightarrow> pb_locals \<Rightarrow> error + (config \<times> pb_locals)" where
  "atom_body atomIndex this st =
     (let (ok, line, f1) = getline (m_file this) (pb_line st);
          (natom, s1) = ext_int (line, False);
          (cs, s2) = ext_word s1;
          chemical_species = (case cs of None \<Rightarrow> pb_chemical_species st | Some w \<Rightarrow> w);
          this1 = this\<lparr>m_file := f1\<rparr>;
          st1 = st\<lparr>pb_line := line, pb_chemical_species := chemical_species\<rparr>
      in
        if chemical_species \<notin> set (pb_species st1) then
          (let st2 = st1\<lparr>pb_species := pb_species st1 @ [chemical_species],
                         pb_gaussianCoefficients := [], pb_shellTypes := []\<rparr>
           in
             if 0 \<le> pb_nspecies st2 \<and> nat (pb_nspecies st2) < length (shellsPerSpecies this1) then
               (case shell_loop (nat (shellsPerSpecies this1 ! nat (pb_nspecies st2))) this1 st2 of
                  (this3, st3) \<Rightarrow>
                    (case pb_norbitals st3 of
                       None \<Rightarrow> Inl (Undefined ''parseAtomicBasis: norbitals read before it is written'')
                     | Some norb \<Rightarrow>
                         if \<not> int_fits (norb - pb_totalOrbitals st3)
                         then Inl (Undefined ''norbitals - totalOrbitals: signed integer overflow'')
                         else
                           Inr (this3\<lparr>orbitalsPerSpecies :=
                                        orbitalsPerSpecies this3 @ [norb - pb_totalOrbitals st3],
                                      shellTypesPerSpecies :=
                                        AList.update (pb_nspecies st3) (pb_shellTypes st3)
                                          (shellTypesPerSpecies this3)\<rparr>,
                                st3\<lparr>pb_totalOrbitals := norb,
                                    pb_nspecies := pb_nspecies st3 + 1\<rparr>)))
             else Inl (Undefined ''shellsPerSpecies[nspecies]: index past the end of the vector''))
        else
          (if atomIndex < length (motif this1) \<and> 3 < length (motif this1 ! atomIndex) then
             (let v = motif this1 ! atomIndex ! 3 in
              if 0 \<le> v \<and> nat \<lfloor>v\<rfloor> < length (orbitalsPerSpecies this1) then
                (if \<not> int_fits (pb_totalOrbitals st1 + orbitalsPerSpecies this1 ! nat \<lfloor>v\<rfloor>)
                 then Inl (Undefined ''totalOrbitals += ...: signed integer overflow'')
                 else
                   Inr (this1, st1\<lparr>pb_totalOrbitals :=
                                       pb_totalOrbitals st1 + orbitalsPerSpecies this1 ! nat \<lfloor>v\<rfloor>\<rparr>))
              else Inl (Undefined ''orbitalsPerSpecies[...]: index past the end of the vector''))
           else Inl (Logic_error ''Mat::row(): index out of bounds'')))"

fun atom_loop :: "nat \<Rightarrow> nat \<Rightarrow> config \<Rightarrow> pb_locals \<Rightarrow> error + (config \<times> pb_locals)" where
  "atom_loop 0 atomIndex this st = Inr (this, st)"
| "atom_loop (Suc k) atomIndex this st =
     (case atom_body atomIndex this st of
        Inl e \<Rightarrow> Inl e
      | Inr (this', st') \<Rightarrow> atom_loop k (atomIndex + 1) this' st')"

text \<open>\<^verbatim>\<open>parseAtomicBasis\<close>: three lines are skipped, then the atoms are read.\<close>

definition parseAtomicBasis :: "config \<Rightarrow> error + config" where
  "parseAtomicBasis this =
     (let (ok1, line1, f1) = getline (m_file this) [];
          (ok2, line2, f2) = getline f1 line1;
          (ok3, line3, f3) = getline f2 line2
      in
        case atom_loop (nat (natoms this)) 0 (this\<lparr>m_file := f3\<rparr>)
               \<lparr>pb_line = line3, pb_chemical_species = [], pb_norbitals = None,
                pb_totalOrbitals = 0, pb_nspecies = 0, pb_shellType = [], pb_shellTypes = [],
                pb_gaussianCoefficients = [], pb_species = []\<rparr> of
          Inl e \<Rightarrow> Inl e
        | Inr (this', st) \<Rightarrow> Inr this')"

section \<open>Basis sections\<close>

text \<open>
  The shape of a basis section, by the extractions of \<^verbatim>\<open>parseAtomicBasis\<close>: a line of the
  table of coefficients holds exactly 4 numbers; an atom line gives a label after the atom
  number; the header of a shell gives the cumulative number of orbitals (the index of the
  last orbital of the shell) and the shell type. A shell is its header and its table. An
  atom of a new species is its atom line and its shells; an atom of a species already
  seen is its atom line alone.
\<close>

definition is_coef_line :: "string \<Rightarrow> bool" where
  "is_coef_line line = (length (split line) = 4)"

definition basis_atom :: "string \<Rightarrow> string option" where
  "basis_atom line = (let (natom, s1) = ext_int (line, False); (cs, s2) = ext_word s1 in cs)"

definition shell_header :: "string \<Rightarrow> (int \<times> string) option" where
  "shell_header line =
     (let (n1, s1) = ext_int (line, False); (t1, s2) = ext_word s1
      in case (n1, t1) of
           (Some a, Some w) \<Rightarrow>
             (case shell_fields line None [] of (Some c, t) \<Rightarrow> Some (c, t) | _ \<Rightarrow> None)
         | _ \<Rightarrow> None)"

definition shell_ok :: "string \<times> string list \<Rightarrow> bool" where
  "shell_ok sh = (shell_header (fst sh) \<noteq> None \<and> \<not> is_coef_line (fst sh) \<and> list_all is_coef_line (snd sh))"

definition shell_lines :: "string \<times> string list \<Rightarrow> string list" where
  "shell_lines sh = fst sh # snd sh"

datatype basis_block = New_species string "(string \<times> string list) list" | Seen_species string

fun block_lines :: "basis_block \<Rightarrow> string list" where
  "block_lines (New_species al shs) = al # concat (map shell_lines shs)"
| "block_lines (Seen_species al) = [al]"

text \<open>
  The bookkeeping of the claim: \<open>cumulative\<close> is the file's running total at the end of
  the shells of a species. The count derived for a new species is this total minus the
  total accumulated so far, which then becomes the file's total; an atom of a species
  already seen advances the total by the count recorded for the species that the motif
  names for this atom.
\<close>

definition cumulative :: "(string \<times> string list) list \<Rightarrow> int" where
  "cumulative shs = (case shell_header (fst (last shs)) of Some (c, t) \<Rightarrow> c | None \<Rightarrow> 0)"

fun derived_counts :: "mat \<Rightarrow> nat \<Rightarrow> int \<Rightarrow> int list \<Rightarrow> basis_block list \<Rightarrow> int list" where
  "derived_counts mot i tot counts [] = counts"
| "derived_counts mot i tot counts (New_species al shs # bs) =
     derived_counts mot (i + 1) (cumulative shs) (counts @ [cumulative shs - tot]) bs"
| "derived_counts mot i tot counts (Seen_species al # bs) =
     derived_counts mot (i + 1) (tot + counts ! nat \<lfloor>mot ! i ! 3\<rfloor>) counts bs"

text \<open>
  The differences and the sums of this bookkeeping all fit in an \<^verbatim>\<open>int\<close>, the type in
  which \<^verbatim>\<open>parseAtomicBasis\<close> computes them.
\<close>

fun counts_fit :: "mat \<Rightarrow> nat \<Rightarrow> int \<Rightarrow> int list \<Rightarrow> basis_block list \<Rightarrow> bool" where
  "counts_fit mot i tot counts [] = True"
| "counts_fit mot i tot counts (New_species al shs # bs) =
     (int_fits (cumulative shs - tot) \<and>
      counts_fit mot (i + 1) (cumulative shs) (counts @ [cumulative shs - tot]) bs)"
| "counts_fit mot i tot counts (Seen_species al # bs) =
     (int_fits (tot + counts ! nat \<lfloor>mot ! i ! 3\<rfloor>) \<and>
      counts_fit mot (i + 1) (tot + counts ! nat \<lfloor>mot ! i ! 3\<rfloor>) counts bs)"

text \<open>
  A well-formed list of atoms, for the motif and the shell counts stored by
  \<^verbatim>\<open>parseAtoms\<close>: no atom line or shell header looks like a line of coefficients, a new
  species has the number of shells stored for it (at least one), and the motif of an atom
  of a seen species names a species already counted.
\<close>

fun blocks_ok :: "mat \<Rightarrow> int list \<Rightarrow> nat \<Rightarrow> string list \<Rightarrow> nat \<Rightarrow> nat \<Rightarrow> basis_block list \<Rightarrow> bool" where
  "blocks_ok mot sps i seen nsp ncnt [] = True"
| "blocks_ok mot sps i seen nsp ncnt (New_species al shs # bs) =
     (case basis_atom al of
        None \<Rightarrow> False
      | Some l \<Rightarrow> l \<notin> set seen \<and> \<not> is_coef_line al \<and> nsp < length sps \<and>
                  sps ! nsp = int (length shs) \<and> shs \<noteq> [] \<and> list_all shell_ok shs \<and>
                  blocks_ok mot sps (i + 1) (seen @ [l]) (nsp + 1) (ncnt + 1) bs)"
| "blocks_ok mot sps i seen nsp ncnt (Seen_species al # bs) =
     (case basis_atom al of
        None \<Rightarrow> False
      | Some l \<Rightarrow> l \<in> set seen \<and> \<not> is_coef_line al \<and> i < length mot \<and> 3 < length (mot ! i) \<and>
                  0 \<le> mot ! i ! 3 \<and> nat \<lfloor>mot ! i ! 3\<rfloor> < ncnt \<and>
                  blocks_ok mot sps (i + 1) seen nsp ncnt bs)"

text \<open>What reading shells leaves unchanged, in the object and in the local variables.\<close>

definition pb_frame :: "config \<Rightarrow> config \<Rightarrow> bool" where
  "pb_frame this this' =
     (natoms this' = natoms this \<and> motif this' = motif this \<and>
      shellsPerSpecies this' = shellsPerSpecies this \<and>
      orbitalsPerSpecies this' = orbitalsPerSpecies this)"

definition pb_same :: "pb_locals \<Rightarrow> pb_locals \<Rightarrow> bool" where
  "pb_same st st' =
     (pb_totalOrbitals st' = pb_totalOrbitals st \<and> pb_nspecies st' = pb_nspecies st \<and>
      pb_species st' = pb_species st)"

section \<open>Strings\<close>

text \<open>
  \<^verbatim>\<open>line.find(pat)\<close>: the position of the first occurrence of \<open>pat\<close>, \<open>None\<close> for
  \<^verbatim>\<open>npos\<close>.
\<close>

fun str_find :: "string \<Rightarrow> string \<Rightarrow> nat option" where
  "str_find [] pat = (if pat = [] then Some 0 else None)"
| "str_find (c # cs) pat =
     (if take (length pat) (c # cs) = pat then Some 0 else map_option Suc (str_find cs pat))"

definition contains :: "string \<Rightarrow> string \<Rightarrow> bool" where
  "contains line pat = (str_find line pat \<noteq> None)"

text \<open>
  \<^verbatim>\<open>int pos = line.find(marker); line.substr(pos + strlen(marker), line.length())\<close>.
  \<^verbatim>\<open>npos\<close> becomes -1 in the \<^verbatim>\<open>int\<close>; \<^verbatim>\<open>substr\<close> throws when the start lies past the
  end of the string.
\<close>

definition after_marker :: "string \<Rightarrow> string \<Rightarrow> error + string" where
  "after_marker line marker =
     (let pos = (case str_find line marker of None \<Rightarrow> - 1 | Some p \<Rightarrow> int p);
          start = pos + int (length marker)
      in if start < 0 \<or> start > int (length line) then Inl (Out_of_range ''basic_string::substr'')
         else Inr (drop (nat start) line))"

text \<open>\<^verbatim>\<open>iss >> n\<close> into an initialised \<^verbatim>\<open>int\<close> member, from a fresh stream on \<open>line\<close>.\<close>

definition read_int :: "string \<Rightarrow> int \<Rightarrow> int" where
  "read_int line old = (case fst (ext_int (line, False)) of None \<Rightarrow> old | Some v \<Rightarrow> v)"

section \<open>Joining rows and slices\<close>

definition n_rows :: "'a list list \<Rightarrow> nat" where
  "n_rows m = length m"

definition n_cols :: "'a list list \<Rightarrow> nat" where
  "n_cols m = (case m of [] \<Rightarrow> 0 | r # rs \<Rightarrow> length r)"

definition n_elem :: "'a list list \<Rightarrow> nat" where
  "n_elem m = n_rows m * n_cols m"

text \<open>The number of elements of a cube, given as the list of its slices.\<close>

definition cube_n_elem :: "'a list list list \<Rightarrow> nat" where
  "cube_n_elem cube = sum_list (map n_elem cube)"

text \<open>
  \<^verbatim>\<open>arma::join_slices(cube, matrix)\<close>: the matrix becomes the last slice of the cube; the
  sizes of the slices must agree. Armadillo first looks at the numbers of elements: when
  the cube has none, the result is the matrix alone, a cube of one slice; otherwise, when
  the matrix has none, the result is the cube as it was. Nothing is thrown in these two
  cases.
\<close>

definition join_slices :: "'a list list list \<Rightarrow> 'a list list \<Rightarrow> error + 'a list list list" where
  "join_slices cube m =
     (if cube_n_elem cube = 0 then Inr [m]
      else if n_elem m = 0 then Inr cube
      else if n_rows (hd cube) \<noteq> n_rows m \<or> n_cols (hd cube) \<noteq> n_cols m
      then Inl (Logic_error ''join_slices(): incompatible dimensions'')
      else Inr (cube @ [m]))"

text \<open>
  \<^verbatim>\<open>arma::join_vert(matrix, row)\<close> for a row of 3 numbers: the row becomes the last row
  of the matrix; the numbers of columns must agree unless the matrix is empty.
\<close>

definition join_vert :: "mat \<Rightarrow> rowvec \<Rightarrow> error + mat" where
  "join_vert m row =
     (if m \<noteq> [] \<and> n_cols m \<noteq> length row
      then Inl (Logic_error ''join_cols() / join_vert(): number of columns must be the same'')
      else Inr (m @ [row]))"

section \<open>The lattice section\<close>

text \<open>
  Modelled from the spec: \<^verbatim>\<open>parseVectors\<close>, a method of the base class
  \<^verbatim>\<open>ConfigurationBase\<close> (not among the source files). Each of the lines holds one vector of
  3 floating-point numbers and gives one row of the matrix; a line with another number of
  numbers is a fatal parse error.
\<close>

definition parseVectors :: "string list \<Rightarrow> error + mat" where
  "parseVectors vectors =
     (if list_all (\<lambda>l. length (split l) = 3) vectors then Inr (map split vectors)
      else Inl (Logic_error ''parseVectors: a lattice vector needs 3 numbers''))"

text \<open>\<^verbatim>\<open>parseBravaisLattice\<close>: three lines are read, whether the stream still has them or not.\<close>

definition parseBravaisLattice :: "real \<Rightarrow> config \<Rightarrow> error + config" where
  "parseBravaisLattice threshold this =
     (let (ok1, line1, f1) = getline (m_file this) [];
          (ok2, line2, f2) = getline f1 line1;
          (ok3, line3, f3) = getline f2 line2
      in case parseVectors [line1, line2, line3] of
           Inl e \<Rightarrow> Inl e
         | Inr lattice \<Rightarrow>
             Inr (extractDimension threshold (this\<lparr>m_file := f3, bravaisLattice := lattice\<rparr>)))"

section \<open>The scanner\<close>

text \<open>
  The translation vector of a cell, \<^verbatim>\<open>cell += bravaisLattice.row(i) * coefCombinations[i]\<close>
  for \<open>i\<close> below \<^verbatim>\<open>ndim\<close>, from \<^verbatim>\<open>arma::rowvec(3)\<close> (zeros, as Armadillo initialises
  it since version 10.5). \<^verbatim>\<open>coefCombinations\<close> has 3 entries and is read unchecked; the
  row is checked by Armadillo, as is the size of the sum.
\<close>

fun cell_loop :: "nat \<Rightarrow> nat \<Rightarrow> mat \<Rightarrow> int list \<Rightarrow> rowvec \<Rightarrow> error + rowvec" where
  "cell_loop 0 i lattice coefCombinations cell = Inr cell"
| "cell_loop (Suc k) i lattice coefCombinations cell =
     (if \<not> i < length coefCombinations
      then Inl (Undefined ''coefCombinations[i]: index past the end of the vector'')
      else if \<not> i < length lattice then Inl (Logic_error ''Mat::row(): index out of bounds'')
      else if length (lattice ! i) \<noteq> length cell
      then Inl (Logic_error ''addition: incompatible matrix dimensions'')
      else cell_loop k (i + 1) lattice coefCombinations
             (map2 (+) cell (map (\<lambda>v. v * real_of_int (coefCombinations ! i)) (lattice ! i))))"

text \<open>
  \<^verbatim>\<open>iss >> cellIndex >> parenthesis >> x >> y >> z\<close> on the text after the marker of a
  matrix section: the four integers, each \<open>None\<close> when the chain did not write it.
\<close>

definition cell_fields :: "string \<Rightarrow> int option \<times> int option \<times> int option \<times> int option" where
  "cell_fields line =
     (let (cellIndex, s1) = ext_int (line, False);
          (parenthesis, s2) = ext_word s1;
          (x, s3) = ext_int s2;
          (y, s4) = ext_int s3;
          (z, s5) = ext_int s4
      in (cellIndex, x, y, z))"

text \<open>The branch of an overlap matrix section.\<close>

definition overlap_section :: "int \<Rightarrow> config \<Rightarrow> string \<Rightarrow> error + (config \<times> string)" where
  "overlap_section ncells this line =
     (case after_marker line ''OVERLAP MATRIX - CELL N.'' of
        Inl e \<Rightarrow> Inl e
      | Inr line1 \<Rightarrow>
          (case cell_fields line1 of
             (Some cellIndex, Some x, Some y, Some z) \<Rightarrow>
               if cellIndex \<le> ncells then
                 (case cell_loop (nat (ndim this)) 0 (bravaisLattice this) [x, y, z] [0, 0, 0] of
                    Inl e \<Rightarrow> Inl e
                  | Inr cell \<Rightarrow>
                      (case join_vert (bravaisVectors this) cell of
                         Inl e \<Rightarrow> Inl e
                       | Inr vectors \<Rightarrow>
                           (case parseMatrix (this\<lparr>bravaisVectors := vectors\<rparr>) of
                              Inl e \<Rightarrow> Inl e
                            | Inr (overlapMatrix, this1) \<Rightarrow>
                                (case join_slices (overlapMatrices this1) overlapMatrix of
                                   Inl e \<Rightarrow> Inl e
                                 | Inr cube \<Rightarrow> Inr (this1\<lparr>overlapMatrices := cube\<rparr>, line1)))))
               else Inr (this, line1)
           | _ \<Rightarrow> Inl (Undefined ''parseContent: cell index or coefficient read before it is written'')))"

text \<open>
  The branch of a Fock matrix section. Of the numbers on the marker line only the cell
  index is read. With the spin-orbit flag (and no magnetic flag) the matrix is read and
  dropped (\<^verbatim>\<open>continue\<close>).
\<close>

definition fock_section :: "int \<Rightarrow> config \<Rightarrow> string \<Rightarrow> error + config" where
  "fock_section ncells this line =
     (case after_marker line ''FOCK MATRIX - CELL N.'' of
        Inl e \<Rightarrow> Inl e
      | Inr line1 \<Rightarrow>
          (case cell_fields line1 of
             (None, x, y, z) \<Rightarrow>
               Inl (Undefined ''parseContent: cell index read before it is written'')
           | (Some cellIndex, x, y, z) \<Rightarrow>
               if cellIndex \<le> ncells then
                 (case parseMatrix this of
                    Inl e \<Rightarrow> Inl e
                  | Inr (fockMatrix, this1) \<Rightarrow>
                      if MAGNETIC_FLAG this1 then
                        (if alpha_electrons this1 then
                           (case join_slices (alphaMatrices this1) fockMatrix of
                              Inl e \<Rightarrow> Inl e
                            | Inr cube \<Rightarrow> Inr (this1\<lparr>alphaMatrices := cube\<rparr>))
                         else
                           (case join_slices (betaMatrices this1) fockMatrix of
                              Inl e \<Rightarrow> Inl e
                            | Inr cube \<Rightarrow> Inr (this1\<lparr>betaMatrices := cube\<rparr>)))
                      else if SOC_FLAG this1 then Inr this1
                      else
                        (case join_slices (fockMatrices this1) fockMatrix of
                           Inl e \<Rightarrow> Inl e
                         | Inr cube \<Rightarrow> Inr (this1\<lparr>fockMatrices := cube\<rparr>)))
               else Inr this))"

text \<open>
  The chain of \<^verbatim>\<open>if\<close> / \<^verbatim>\<open>else if\<close> on the markers, in the order of the source. It
  gives the object and the variable \<^verbatim>\<open>line\<close>, which several branches cut down to the text
  after their marker.
\<close>

definition SOC_STRING :: string where
  "SOC_STRING = ''to_be_defined_for_crystal23''"

definition MAGNETIC_STRING :: string where
  "MAGNETIC_STRING = ''UNRESTRICTED OPEN SHELL''"

definition marker_chain :: "int \<Rightarrow> real \<Rightarrow> config \<Rightarrow> string \<Rightarrow> error + (config \<times> string)" where
  "marker_chain ncells threshold this line =
     (if contains line ''DIRECT LATTICE VECTOR COMPONENTS'' then
        (case parseBravaisLattice threshold this of
           Inl e \<Rightarrow> Inl e
         | Inr this1 \<Rightarrow> Inr (this1, line))
      else if contains line ''N. OF ATOMS PER CELL'' then
        (case after_marker line ''N. OF ATOMS PER CELL'' of
           Inl e \<Rightarrow> Inl e
         | Inr line1 \<Rightarrow> Inr (this\<lparr>natoms := read_int line1 (natoms this)\<rparr>, line1))
      else if contains line ''NUMBER OF SHELLS'' then
        (case after_marker line ''NUMBER OF SHELLS'' of
           Inl e \<Rightarrow> Inl e
         | Inr line1 \<Rightarrow> Inr (this\<lparr>nshells := read_int line1 (nshells this)\<rparr>, line1))
      else if contains line ''NUMBER OF AO'' then
        (case after_marker line ''NUMBER OF AO'' of
           Inl e \<Rightarrow> Inl e
         | Inr line1 \<Rightarrow> Inr (this\<lparr>norbitals := read_int line1 (norbitals this)\<rparr>, line1))
      else if contains line ''N. OF ELECTRONS PER CELL'' then
        (case after_marker line ''N. OF ELECTRONS PER CELL'' of
           Inl e \<Rightarrow> Inl e
         | Inr line1 \<Rightarrow> Inr (this\<lparr>totalElectrons := read_int line1 (totalElectrons this)\<rparr>, line1))
      else if contains line ''CORE ELECTRONS PER CELL'' then
        (case after_marker line ''CORE ELECTRONS PER CELL'' of
           Inl e \<Rightarrow> Inl e
         | Inr line1 \<Rightarrow> Inr (this\<lparr>coreElectrons := read_int line1 (coreElectrons this)\<rparr>, line1))
      else if contains line ''ATOM'' \<and> contains line ''SHELL'' then
        (if natoms this = 0 then Inl (Logic_error ''Must parse first number of atoms'')
         else
           (case parseAtoms this of
              Inl e \<Rightarrow> Inl e
            | Inr this1 \<Rightarrow> Inr (this1, line)))
      else if contains line ''LOCAL ATOMIC FUNCTIONS BASIS SET'' then
        (case parseAtomicBasis this of
           Inl e \<Rightarrow> Inl e
         | Inr this1 \<Rightarrow> Inr (this1, line))
      else if contains line ''OVERLAP MATRIX'' then overlap_section ncells this line
      else if contains line SOC_STRING then Inr (this\<lparr>SOC_FLAG := True\<rparr>, line)
      else if contains line MAGNETIC_STRING then Inr (this\<lparr>MAGNETIC_FLAG := True\<rparr>, line)
      else Inr (this, line))"

text \<open>
  The body of the \<^verbatim>\<open>while\<close> loop of \<^verbatim>\<open>parseContent\<close>, for the line just read: the
  chain on the markers, then the two separate tests, both on \<^verbatim>\<open>line\<close> as the chain left
  it.
\<close>

definition scan_line :: "int \<Rightarrow> real \<Rightarrow> config \<Rightarrow> string \<Rightarrow> error + config" where
  "scan_line ncells threshold this line =
     (case marker_chain ncells threshold this line of
        Inl e \<Rightarrow> Inl e
      | Inr (this1, line1) \<Rightarrow>
          (let this2 = (if contains line1 ''BETA'' \<and> contains line1 ''ELECTRONS''
                        then this1\<lparr>alpha_electrons := False\<rparr> else this1)
           in if contains line1 ''FOCK MATRIX'' then fock_section ncells this2 line1
              else Inr this2))"

subsection \<open>No parser gives lines back to the stream\<close>

abbreviation remaining :: "config \<Rightarrow> nat" where
  "remaining this \<equiv> length (slines (m_file this))"

lemma parseMatrix_loop_length:
  "parseMatrix_loop this st = Inr (m, this') \<Longrightarrow> remaining this' \<le> remaining this"
proof (induction this st rule: parseMatrix_loop.induct)
  case (1 this st)
  obtain ok line f where g: "getline (m_file this) (pm_line st) = (ok, line, f)"
    by (metis prod_cases3)
  have gl: "length (slines f) \<le> remaining this"
    using getline_length [OF g] .
  from "1.prems" g have ok: "ok"
    by (subst (asm) parseMatrix_loop.simps) (auto split: if_splits)
  show ?case
  proof (cases "parseMatrix_body (this\<lparr>m_file := f\<rparr>) (st\<lparr>pm_line := line\<rparr>)")
    case (Inl e)
    with "1.prems" g ok show ?thesis
      by (subst (asm) parseMatrix_loop.simps) simp
  next
    case (Inr r)
    show ?thesis
    proof (cases r)
      case (Inl res)
      with Inr "1.prems" g ok have "parseMatrix_body (this\<lparr>m_file := f\<rparr>) (st\<lparr>pm_line := line\<rparr>)
          = Inr (Inl (m, this'))"
        by (subst (asm) parseMatrix_loop.simps) simp
      then have "m_file this' = f \<or> remaining this' \<le> length (slines f)"
        by (auto simp: parseMatrix_body_def Let_def getline_def
            split: if_splits prod.splits sum.splits list.splits)
      with gl show ?thesis by auto
    next
      case (Inr c)
      obtain this1 st1 where c: "c = (this1, st1)" by (cases c)
      have b: "parseMatrix_body (this\<lparr>m_file := f\<rparr>) (st\<lparr>pm_line := line\<rparr>) = Inr (Inr (this1, st1))"
        using \<open>parseMatrix_body (this\<lparr>m_file := f\<rparr>) (st\<lparr>pm_line := line\<rparr>) = Inr r\<close> Inr c by simp
      from "1.prems" g ok b have l: "parseMatrix_loop this1 st1 = Inr (m, this')"
        by (subst (asm) parseMatrix_loop.simps) simp
      have "remaining this' \<le> remaining this1"
        using "1.IH" [OF g [symmetric] refl _ b refl refl l] ok by simp
      moreover have "remaining this1 \<le> length (slines f)"
        using parseMatrix_body_length [OF b] by simp
      ultimately show ?thesis using gl by linarith
    qed
  qed
qed

lemma parseMatrix_length:
  "parseMatrix this = Inr (m, this') \<Longrightarrow> remaining this' \<le> remaining this"
  by (auto simp: parseMatrix_def split: if_splits dest: parseMatrix_loop_length)


lemma parseAtoms_body_length:
  "parseAtoms_body i f st = Inr (f', st') \<Longrightarrow> length (slines f') \<le> length (slines f)"
proof -
  assume a: "parseAtoms_body i f st = Inr (f', st')"
  obtain ok line f1 where g: "getline f (pa_line st) = (ok, line, f1)"
    by (metis prod_cases3)
  from a g have "f' = f1"
    by (auto simp: parseAtoms_body_def Let_def split: prod.splits sum.splits option.splits if_splits)
  with getline_length [OF g] show ?thesis by simp
qed

lemma parseAtoms_loop_length:
  "parseAtoms_loop k i f st = Inr (f', st') \<Longrightarrow> length (slines f') \<le> length (slines f)"
proof (induction k arbitrary: i f st)
  case 0
  then show ?case by simp
next
  case (Suc k)
  then obtain f1 st1 where b: "parseAtoms_body i f st = Inr (f1, st1)"
    and l: "parseAtoms_loop k (i + 1) f1 st1 = Inr (f', st')"
    by (auto split: sum.splits)
  from Suc.IH [OF l] parseAtoms_body_length [OF b] show ?case by linarith
qed

lemma parseAtoms_length:
  assumes "parseAtoms this = Inr this'"
  shows "remaining this' \<le> remaining this"
proof -
  obtain ok line f1 where g: "getline (m_file this) [] = (ok, line, f1)"
    by (metis prod_cases3)
  from assms g obtain k st0 f2 st where l: "parseAtoms_loop k 0 f1 st0 = Inr (f2, st)"
    and f: "m_file this' = f2"
    by (auto simp: parseAtoms_def Let_def split: if_splits sum.splits prod.splits)
  from parseAtoms_loop_length [OF l] getline_length [OF g] f show ?thesis by simp
qed

lemma coef_loop_length:
  "coef_loop f line acc = (f', line', acc') \<Longrightarrow> length (slines f') \<le> length (slines f)"
proof (induction f line acc rule: coef_loop.induct)
  case (1 f line coefList)
  obtain ok l1 f1 where g: "getline f line = (ok, l1, f1)"
    by (metis prod_cases3)
  note gl = getline_length [OF g]
  show ?case
  proof (cases "ok \<and> length (split l1) = 4")
    case True
    with "1.prems" g have "coef_loop f1 l1 (coefList @ [split l1]) = (f', line', acc')"
      by (subst (asm) coef_loop.simps) simp
    from "1.IH" [OF g [symmetric] refl _ _ this] True gl show ?thesis by simp
  next
    case False
    with "1.prems" g have "f' = f1 \<or> f' = f"
      by (subst (asm) coef_loop.simps) (auto split: if_splits)
    with gl show ?thesis by auto
  qed
qed

lemma shell_body_length:
  assumes "shell_body this st = (this', st')"
  shows "remaining this' \<le> remaining this"
proof -
  obtain ok line f1 where g: "getline (m_file this) (pb_line st) = (ok, line, f1)"
    by (metis prod_cases3)
  obtain f2 line2 cl where c: "coef_loop f1 line [] = (f2, line2, cl)"
    by (metis prod_cases3)
  from assms g c have "m_file this' = f2"
    by (auto simp: shell_body_def Let_def split: prod.splits)
  with getline_length [OF g] coef_loop_length [OF c] show ?thesis by simp
qed

lemma shell_loop_length:
  "shell_loop k this st = (this', st') \<Longrightarrow> remaining this' \<le> remaining this"
proof (induction k arbitrary: this st)
  case 0
  then show ?case by simp
next
  case (Suc k)
  then obtain this1 st1 where b: "shell_body this st = (this1, st1)"
    and l: "shell_loop k this1 st1 = (this', st')"
    by (auto split: prod.splits)
  from Suc.IH [OF l] shell_body_length [OF b] show ?case by linarith
qed

lemma atom_body_length:
  assumes "atom_body i this st = Inr (this', st')"
  shows "remaining this' \<le> remaining this"
proof -
  obtain ok line f1 where g: "getline (m_file this) (pb_line st) = (ok, line, f1)"
    by (metis prod_cases3)
  obtain natom s1 where e1: "ext_int (line, False) = (natom, s1)"
    by (cases "ext_int (line, False)")
  obtain cs s2 where e2: "ext_word s1 = (cs, s2)"
    by (cases "ext_word s1")
  define sp where "sp = (case cs of None \<Rightarrow> pb_chemical_species st | Some w \<Rightarrow> w)"
  show ?thesis
  proof (cases "sp \<in> set (pb_species st)")
    case True
    with assms g e1 e2 have "m_file this' = f1"
      by (auto simp: atom_body_def Let_def sp_def split: if_splits)
    with getline_length [OF g] show ?thesis by simp
  next
    case False
    with assms g e1 e2 obtain k st2 this3 st3 where
      l: "shell_loop k (this\<lparr>m_file := f1\<rparr>) st2 = (this3, st3)"
      and f: "m_file this' = m_file this3"
      by (auto simp: atom_body_def Let_def sp_def split: if_splits prod.splits option.splits)
    from shell_loop_length [OF l] f getline_length [OF g] show ?thesis by simp
  qed
qed

lemma atom_loop_length:
  "atom_loop k i this st = Inr (this', st') \<Longrightarrow> remaining this' \<le> remaining this"
proof (induction k arbitrary: i this st)
  case 0
  then show ?case by simp
next
  case (Suc k)
  then obtain this1 st1 where b: "atom_body i this st = Inr (this1, st1)"
    and l: "atom_loop k (i + 1) this1 st1 = Inr (this', st')"
    by (auto split: sum.splits)
  from Suc.IH [OF l] atom_body_length [OF b] show ?case by linarith
qed

lemma parseAtomicBasis_length:
  assumes "parseAtomicBasis this = Inr this'"
  shows "remaining this' \<le> remaining this"
proof -
  obtain ok1 line1 f1 where g1: "getline (m_file this) [] = (ok1, line1, f1)"
    by (metis prod_cases3)
  obtain ok2 line2 f2 where g2: "getline f1 line1 = (ok2, line2, f2)"
    by (metis prod_cases3)
  obtain ok3 line3 f3 where g3: "getline f2 line2 = (ok3, line3, f3)"
    by (metis prod_cases3)
  from assms g1 g2 g3 obtain k st0 st where
    l: "atom_loop k 0 (this\<lparr>m_file := f3\<rparr>) st0 = Inr (this', st)"
    by (auto simp: parseAtomicBasis_def Let_def split: sum.splits prod.splits)
  from atom_loop_length [OF l] getline_length [OF g1] getline_length [OF g2]
    getline_length [OF g3]
  show ?thesis by simp
qed

lemma extractDimension_m_file [simp]: "m_file (extractDimension threshold this) = m_file this"
  by (simp add: extractDimension_def Let_def)

lemma parseBravaisLattice_length:
  assumes "parseBravaisLattice threshold this = Inr this'"
  shows "remaining this' \<le> remaining this"
proof -
  obtain ok1 line1 f1 where g1: "getline (m_file this) [] = (ok1, line1, f1)"
    by (metis prod_cases3)
  obtain ok2 line2 f2 where g2: "getline f1 line1 = (ok2, line2, f2)"
    by (metis prod_cases3)
  obtain ok3 line3 f3 where g3: "getline f2 line2 = (ok3, line3, f3)"
    by (metis prod_cases3)
  from assms g1 g2 g3 have "m_file this' = f3"
    by (auto simp: parseBravaisLattice_def Let_def split: sum.splits)
  with getline_length [OF g1] getline_length [OF g2] getline_length [OF g3]
  show ?thesis by simp
qed

lemma overlap_section_length:
  assumes "overlap_section ncells this line = Inr (this', line')"
  shows "remaining this' \<le> remaining this"
proof -
  from assms have "this' = this
      \<or> (\<exists>v m this1 c. parseMatrix (this\<lparr>bravaisVectors := v\<rparr>) = Inr (m, this1)
            \<and> this' = this1\<lparr>overlapMatrices := c\<rparr>)"
    by (auto simp: overlap_section_def split: sum.splits prod.splits option.splits if_splits)
  then show ?thesis
    by (auto dest!: parseMatrix_length)
qed

lemma fock_section_length:
  assumes "fock_section ncells this line = Inr this'"
  shows "remaining this' \<le> remaining this"
proof -
  from assms have "this' = this
      \<or> (\<exists>m this1. parseMatrix this = Inr (m, this1) \<and> m_file this' = m_file this1)"
    by (auto simp: fock_section_def split: sum.splits prod.splits option.splits if_splits)
  then show ?thesis
    by (auto dest!: parseMatrix_length)
qed

lemma marker_chain_length:
  assumes "marker_chain ncells threshold this line = Inr (this', line')"
  shows "remaining this' \<le> remaining this"
  using assms unfolding marker_chain_def
  by (simp split: if_split_asm sum.split_asm)
    (auto dest: parseBravaisLattice_length parseAtoms_length parseAtomicBasis_length
        overlap_section_length)

lemma scan_line_length:
  assumes "scan_line ncells threshold this line = Inr this'"
  shows "remaining this' \<le> remaining this"
proof -
  obtain this1 line1 where m: "marker_chain ncells threshold this line = Inr (this1, line1)"
    using assms unfolding scan_line_def by (simp split: sum.split_asm prod.split_asm)
  define this2 where "this2 = (if contains line1 ''BETA'' \<and> contains line1 ''ELECTRONS''
                then this1\<lparr>alpha_electrons := False\<rparr> else this1)"
  have r2: "remaining this2 = remaining this1" by (simp add: this2_def)
  have "this' = this2 \<or> fock_section ncells this2 line1 = Inr this'"
  proof (cases "contains line1 ''FOCK MATRIX''")
    case True
    with assms m show ?thesis
      unfolding scan_line_def Let_def this2_def by simp
  next
    case False
    with assms m show ?thesis
      unfolding scan_line_def Let_def this2_def by simp
  qed
  then have "remaining this' \<le> remaining this2"
    using fock_section_length [of ncells this2 line1 this'] by blast
  with r2 marker_chain_length [OF m] show ?thesis by linarith
qed

text \<open>
  The \<^verbatim>\<open>while\<close> loop of \<^verbatim>\<open>parseContent\<close>. The variable \<^verbatim>\<open>line\<close> is written by
  \<^verbatim>\<open>std::getline\<close> at the head of each iteration, or the loop ends.
\<close>

function parseContent_loop :: "int \<Rightarrow> real \<Rightarrow> config \<Rightarrow> error + config" where
  "parseContent_loop ncells threshold this =
     (case getline (m_file this) [] of
        (ok, line, f) \<Rightarrow>
          if \<not> ok then Inr (this\<lparr>m_file := f\<rparr>)
          else
            (case scan_line ncells threshold (this\<lparr>m_file := f\<rparr>) line of
               Inl e \<Rightarrow> Inl e
             | Inr this' \<Rightarrow> parseContent_loop ncells threshold this'))"
  by pat_completeness auto
termination
  apply (relation "measure (\<lambda>(ncells, threshold, this). remaining this)")
   apply simp
  apply clarsimp
  apply (drule scan_line_length)
  apply (drule getline_ok_length [OF sym])
  apply simp
  done

declare parseContent_loop.simps [simp del]

definition parseContent :: "int \<Rightarrow> real \<Rightarrow> config \<Rightarrow> error + config" where
  "parseContent ncells threshold this = parseContent_loop ncells threshold this"

section \<open>The assembler\<close>

text \<open>\<^verbatim>\<open>arma::kron\<close>: every entry of the first matrix is replaced by its product with the second.\<close>

definition kron :: "cx_mat \<Rightarrow> cx_mat \<Rightarrow> cx_mat" where
  "kron A B = concat (map (\<lambda>ra. map (\<lambda>rb. concat (map (\<lambda>a. map (\<lambda>b. a * b) rb) ra)) B) A)"

text \<open>The sum of two matrices, with Armadillo's check of the sizes.\<close>

definition mat_add :: "cx_mat \<Rightarrow> cx_mat \<Rightarrow> error + cx_mat" where
  "mat_add A B =
     (if n_rows A \<noteq> n_rows B \<or> n_cols A \<noteq> n_cols B
      then Inl (Logic_error ''addition: incompatible matrix dimensions'')
      else Inr (map2 (map2 (+)) A B))"

definition spinUpBlock :: cx_mat where
  "spinUpBlock = [[1, 0], [0, 0]]"

definition spinDownBlock :: cx_mat where
  "spinDownBlock = [[0, 0], [0, 1]]"

definition eye2 :: cx_mat where
  "eye2 = [[1, 0], [0, 1]]"

text \<open>
  The loop of the magnetic branch over the slices of \<^verbatim>\<open>alphaMatrices\<close>: \<open>k\<close> slices are
  left, \<open>i\<close> is the index. \<^verbatim>\<open>slice(i)\<close> is checked by Armadillo.
\<close>

fun magnetic_loop :: "nat \<Rightarrow> nat \<Rightarrow> config \<Rightarrow> cx_mat list \<Rightarrow> error + (config \<times> cx_mat list)" where
  "magnetic_loop 0 i this newOverlapMatrices = Inr (this, newOverlapMatrices)"
| "magnetic_loop (Suc k) i this newOverlapMatrices =
     (if \<not> (i < length (alphaMatrices this) \<and> i < length (betaMatrices this))
      then Inl (Logic_error ''Cube::slice(): index out of bounds'')
      else
        (case mat_add (kron (alphaMatrices this ! i) spinUpBlock)
                (kron (betaMatrices this ! i) spinDownBlock) of
           Inl e \<Rightarrow> Inl e
         | Inr totalFockMatrix \<Rightarrow>
             (case join_slices (fockMatrices this) totalFockMatrix of
                Inl e \<Rightarrow> Inl e
              | Inr cube \<Rightarrow>
                  if \<not> i < length (overlapMatrices this)
                  then Inl (Logic_error ''Cube::slice(): index out of bounds'')
                  else
                    (case join_slices newOverlapMatrices (kron (overlapMatrices this ! i) eye2) of
                       Inl e \<Rightarrow> Inl e
                     | Inr newOverlap \<Rightarrow>
                         magnetic_loop k (i + 1) (this\<lparr>fockMatrices := cube\<rparr>) newOverlap))))"

text \<open>
  The conversion of an \<^verbatim>\<open>int\<close> to an entry of an \<^verbatim>\<open>arma::urowvec\<close>, and the product
  of such an entry by 2: both modulo \<open>2 ^ 64\<close>.
\<close>

definition to_uword :: "int \<Rightarrow> nat" where
  "to_uword v = nat (v mod 2 ^ 64)"

definition uword_double :: "nat \<Rightarrow> nat" where
  "uword_double n = (2 * n) mod 2 ^ 64"

text \<open>\<^verbatim>\<open>mapContent\<close> (without the printing of its debug mode).\<close>

definition mapContent :: "config \<Rightarrow> error + config" where
  "mapContent this =
     (let info = \<lparr>info_ndim = ndim this,
                  info_bravaisLattice = bravaisLattice this,
                  info_motif = motif this,
                  info_filling = real_of_int (totalElectrons this) / 2,
                  info_bravaisVectors = bravaisVectors this,
                  info_overlap = overlapMatrices this,
                  info_norbitals = map to_uword (orbitalsPerSpecies this),
                  info_hamiltonian = info_hamiltonian (systemInfo this)\<rparr>
      in
        if SOC_FLAG this then
          Inr (this\<lparr>systemInfo := info\<lparr>info_filling := info_filling info * 2,
                                         info_norbitals := map uword_double (info_norbitals info),
                                         info_hamiltonian := fockMatrices this\<rparr>\<rparr>)
        else if MAGNETIC_FLAG this then
          (case magnetic_loop (length (alphaMatrices this)) 0 this [] of
             Inl e \<Rightarrow> Inl e
           | Inr (this1, newOverlapMatrices) \<Rightarrow>
               Inr (this1\<lparr>systemInfo := info\<lparr>info_filling := info_filling info * 2,
                                               info_norbitals := map uword_double (info_norbitals info),
                                               info_overlap := newOverlapMatrices,
                                               info_hamiltonian := fockMatrices this1\<rparr>\<rparr>))
        else Inr (this\<lparr>systemInfo := info\<lparr>info_hamiltonian := fockMatrices this\<rparr>\<rparr>))"

text \<open>The constructor: \<^verbatim>\<open>parseContent(ncells)\<close>, then \<^verbatim>\<open>mapContent()\<close>.\<close>

definition CrystalDFTConfiguration :: "int \<Rightarrow> real \<Rightarrow> config \<Rightarrow> error + config" where
  "CrystalDFTConfiguration ncells threshold this =
     (case parseContent ncells threshold this of
        Inl e \<Rightarrow> Inl e
      | Inr this1 \<Rightarrow> mapContent this1)"

section \<open>Markers\<close>

text \<open>
  The marker of the atom section, as the scanner tests it: a line with both \<^verbatim>\<open>ATOM\<close>
  and \<^verbatim>\<open>SHELL\<close> that none of the earlier tests of the chain takes.
\<close>

definition atom_section_marker :: "string \<Rightarrow> bool" where
  "atom_section_marker line =
     (contains line ''ATOM'' \<and> contains line ''SHELL'' \<and>
      \<not> (contains line ''DIRECT LATTICE VECTOR COMPONENTS'' \<or>
         contains line ''N. OF ATOMS PER CELL'' \<or> contains line ''NUMBER OF SHELLS'' \<or>
         contains line ''NUMBER OF AO'' \<or> contains line ''N. OF ELECTRONS PER CELL'' \<or>
         contains line ''CORE ELECTRONS PER CELL''))"

section \<open>Translation vectors and overlap slices\<close>

text \<open>
  The translation vectors of the cells (the rows of \<^verbatim>\<open>bravaisVectors\<close>) and the slices of
  \<^verbatim>\<open>overlapMatrices\<close>, taken together.
\<close>

definition stacks :: "config \<Rightarrow> mat \<times> cx_mat list" where
  "stacks this = (bravaisVectors this, overlapMatrices this)"

text \<open>One row and one slice more: what the acceptance of an overlap section does to them.\<close>

definition cell_accepted :: "config \<Rightarrow> config \<Rightarrow> bool" where
  "cell_accepted this this' \<longleftrightarrow>
     (\<exists>cell overlapMatrix. bravaisVectors this' = bravaisVectors this @ [cell] \<and>
        overlapMatrices this' = overlapMatrices this @ [overlapMatrix])"

text \<open>As many translation vectors as overlap slices.\<close>

definition stacks_agree :: "config \<Rightarrow> bool" where
  "stacks_agree this \<longleftrightarrow> n_rows (bravaisVectors this) = length (overlapMatrices this)"

text \<open>
  A small output file: one orbital, the overlap and the Fock matrix of cell 1. And the
  object as it stands when a matrix section of that file has just been met.
\<close>

definition ex_run :: "string list" where
  "ex_run = ['' NUMBER OF AO 1'',
      '' OVERLAP MATRIX - CELL N.   1(  0  0  0)'', '''', ''   1'', ''  1 1.0000E+00'',
      '' FOCK MATRIX - CELL N.   1(  0  0  0)'', '''', ''   1'', ''  1 -5.0000E-01'']"

definition ex_block :: config where
  "ex_block = new_config (file_of ['''', ''   1'', ''  1 1.0000E+00''])\<lparr>norbitals := 1\<rparr>"

section \<open>Rejected cells\<close>

text \<open>
  The characters of the lines of a printed matrix block: digits, blanks, signs, the point
  and the \<^verbatim>\<open>E\<close> of the exponent.
\<close>

definition numeric_char :: "char \<Rightarrow> bool" where
  "numeric_char c \<longleftrightarrow> c \<in> set '' 0123456789.+-E''"

definition numeric_line :: "string \<Rightarrow> bool" where
  "numeric_line line \<longleftrightarrow> list_all numeric_char line"

text \<open>
  The tests of the marker chain that come before the test for an overlap section.
\<close>

definition chain_marker :: "string \<Rightarrow> bool" where
  "chain_marker line \<longleftrightarrow>
     contains line ''DIRECT LATTICE VECTOR COMPONENTS'' \<or>
     contains line ''N. OF ATOMS PER CELL'' \<or> contains line ''NUMBER OF SHELLS'' \<or>
     contains line ''NUMBER OF AO'' \<or> contains line ''N. OF ELECTRONS PER CELL'' \<or>
     contains line ''CORE ELECTRONS PER CELL'' \<or>
     (contains line ''ATOM'' \<and> contains line ''SHELL'') \<or>
     contains line ''LOCAL ATOMIC FUNCTIONS BASIS SET''"

text \<open>
  The marker line of an overlap section that the scanner rejects: the chain reaches the
  overlap branch, the four integers are read, the cell index exceeds \<^verbatim>\<open>ncells\<close>, and
  the text left in \<^verbatim>\<open>line\<close> triggers neither of the two later tests.
\<close>

definition rejected_overlap :: "int \<Rightarrow> string \<Rightarrow> bool" where
  "rejected_overlap ncells line \<longleftrightarrow>
     \<not> chain_marker line \<and> contains line ''OVERLAP MATRIX'' \<and>
     (case after_marker line ''OVERLAP MATRIX - CELL N.'' of
        Inl e \<Rightarrow> False
      | Inr line1 \<Rightarrow>
          (case cell_fields line1 of
             (Some cellIndex, Some x, Some y, Some z) \<Rightarrow>
               ncells < cellIndex \<and> \<not> contains line1 ''FOCK MATRIX'' \<and>
               \<not> (contains line1 ''BETA'' \<and> contains line1 ''ELECTRONS'')
           | _ \<Rightarrow> False))"

text \<open>
  The marker line of a Fock section that the scanner rejects: no branch of the chain is
  taken, the line is not a \<^verbatim>\<open>BETA ... ELECTRONS\<close> line, the cell index is read and
  exceeds \<^verbatim>\<open>ncells\<close>.
\<close>

definition rejected_fock :: "int \<Rightarrow> string \<Rightarrow> bool" where
  "rejected_fock ncells line \<longleftrightarrow>
     \<not> chain_marker line \<and> \<not> contains line ''OVERLAP MATRIX'' \<and>
     \<not> contains line SOC_STRING \<and> \<not> contains line MAGNETIC_STRING \<and>
     \<not> (contains line ''BETA'' \<and> contains line ''ELECTRONS'') \<and>
     contains line ''FOCK MATRIX'' \<and>
     (case after_marker line ''FOCK MATRIX - CELL N.'' of
        Inl e \<Rightarrow> False
      | Inr line1 \<Rightarrow>
          (case cell_fields line1 of
             (Some cellIndex, x, y, z) \<Rightarrow> ncells < cellIndex
           | _ \<Rightarrow> False))"

text \<open>A rejected section: its marker line, then the lines of its matrix block.\<close>

definition rejected_section :: "int \<Rightarrow> string list \<Rightarrow> bool" where
  "rejected_section ncells sec \<longleftrightarrow>
     (case sec of
        [] \<Rightarrow> False
      | line # block \<Rightarrow>
          (rejected_overlap ncells line \<or> rejected_fock ncells line) \<and>
          list_all numeric_line block)"

text \<open>A line on which no test of the loop body succeeds.\<close>

definition unmarked :: "string \<Rightarrow> bool" where
  "unmarked line \<longleftrightarrow>
     \<not> chain_marker line \<and> \<not> contains line ''OVERLAP MATRIX'' \<and>
     \<not> contains line SOC_STRING \<and> \<not> contains line MAGNETIC_STRING \<and>
     \<not> (contains line ''BETA'' \<and> contains line ''ELECTRONS'') \<and>
     \<not> contains line ''FOCK MATRIX''"

text \<open>
  Three sections of cells 2, 3 and 4, the Fock section of cell 1, and the object, with
  one orbital, on a given file.
\<close>

definition ex_rejected :: "string list list" where
  "ex_rejected =
     [['' OVERLAP MATRIX - CELL N.   2(  1  0  0)'', '''', ''   1'', ''  1 2.5000E-01''],
      ['' OVERLAP MATRIX - CELL N.   3( -1  0  0)'', '''', ''   1'', ''  1 2.5000E-01''],
      ['' FOCK MATRIX - CELL N.   4(  0  1  0)'', '''', ''   1'', ''  1 -7.5000E-01'']]"

definition ex_accepted :: "string list" where
  "ex_accepted = ['' FOCK MATRIX - CELL N.   1(  0  0  0)'', '''', ''   1'', ''  1 -5.0000E-01'']"

definition ex_object :: "string list \<Rightarrow> config" where
  "ex_object ls = new_config (file_of ls)\<lparr>norbitals := 1\<rparr>"

section \<open>Spin blocks\<close>

text \<open>A matrix with \<open>d\<close> rows of \<open>d\<close> entries.\<close>

definition square :: "nat \<Rightarrow> 'a list list \<Rightarrow> bool" where
  "square d M \<longleftrightarrow> length M = d \<and> list_all (\<lambda>r. length r = d) M"

text \<open>
  \<^verbatim>\<open>kron(A, spinUpBlock) + kron(B, spinDownBlock)\<close>, the sum taken entry by entry (its
  operands have the same size).
\<close>

definition spin_sum :: "cx_mat \<Rightarrow> cx_mat \<Rightarrow> cx_mat" where
  "spin_sum A B = map2 (map2 (+)) (kron A spinUpBlock) (kron B spinDownBlock)"

text \<open>The block-diagonal matrix of \<open>A\<close> and \<open>B\<close>: \<open>A\<close> in the upper left, \<open>B\<close> in the lower right.\<close>

definition block_diag :: "cx_mat \<Rightarrow> cx_mat \<Rightarrow> cx_mat" where
  "block_diag A B =
     map (\<lambda>r. r @ replicate (n_cols B) 0) A @ map (\<lambda>r. replicate (n_cols A) 0 @ r) B"

text \<open>
  The order of the basis fixed by the spin projectors: the index \<open>2 * i + s\<close> of the
  assembled slice belongs to orbital \<open>i\<close> with spin \<open>s\<close>, that is to index \<open>s * d + i\<close> of
  the block-diagonal matrix.
\<close>

definition spin_index :: "nat \<Rightarrow> nat \<Rightarrow> nat" where
  "spin_index d k = (k mod 2) * d + k div 2"

text \<open>One row of a Kronecker product.\<close>

definition krow :: "complex list \<Rightarrow> complex list \<Rightarrow> complex list" where
  "krow ra rb = concat (map (\<lambda>a. map (\<lambda>b. a * b) rb) ra)"

text \<open>A magnetic object with one cell of dimension 2, one species and 3 electrons.\<close>

definition ex_magnetic :: config where
  "ex_magnetic = new_config (file_of [])
     \<lparr>totalElectrons := 3, orbitalsPerSpecies := [2], MAGNETIC_FLAG := True,
      alphaMatrices := [[[1, 2], [3, 4]]], betaMatrices := [[[5, 6], [7, 8]]],
      overlapMatrices := [[[1, 9], [9, 1]]]\<rparr>"

section \<open>Overlap sections and orbitals\<close>

text \<open>Every slice of the overlap stack has at least one element.\<close>

definition slices_filled :: "config \<Rightarrow> bool" where
  "slices_filled this \<longleftrightarrow> list_all (\<lambda>S. 0 < n_elem S) (overlapMatrices this)"

text \<open>No more overlap slices than translation vectors.\<close>

definition vectors_cover :: "config \<Rightarrow> bool" where
  "vectors_cover this \<longleftrightarrow> length (overlapMatrices this) \<le> n_rows (bravaisVectors this)"

text \<open>
  A property of the scan of the lines still in the stream, by the recursion of the loop
  of \<^verbatim>\<open>parseContent\<close>: whenever the line read holds \<^verbatim>\<open>OVERLAP MATRIX\<close>, the object
  has at least one orbital (\<^verbatim>\<open>norbitals\<close> is positive), so that the matrix of the
  section, if it is accepted, has elements.
\<close>

function orbitals_at_overlap :: "int \<Rightarrow> real \<Rightarrow> config \<Rightarrow> bool" where
  "orbitals_at_overlap ncells threshold this =
     (case getline (m_file this) [] of
        (ok, line, f) \<Rightarrow>
          if \<not> ok then True
          else if contains line ''OVERLAP MATRIX'' \<and> norbitals this \<le> 0 then False
          else
            (case scan_line ncells threshold (this\<lparr>m_file := f\<rparr>) line of
               Inl e \<Rightarrow> True
             | Inr this' \<Rightarrow> orbitals_at_overlap ncells threshold this'))"
  by pat_completeness auto
termination
  apply (relation "measure (\<lambda>(ncells, threshold, this). remaining this)")
   apply simp
  apply clarsimp
  apply (drule scan_line_length)
  apply (drule getline_ok_length [OF sym])
  apply simp
  done

declare orbitals_at_overlap.simps [simp del]

text \<open>
  An output file without any count of orbitals: two overlap sections, each followed by a
  line of text.
\<close>

definition ex_no_orbitals :: "string list" where
  "ex_no_orbitals =
     ['' OVERLAP MATRIX - CELL N.   1(  0  0  0)'', '' END'',
      '' OVERLAP MATRIX - CELL N.   2(  1  0  0)'', '' END'']"

section \<open>Claims about the lattice\<close>

lemma norm_row_gt_iff:
  "0 \<le> t \<Longrightarrow> (norm_row v > t) = (sum_list (map (\<lambda>x. x * x) v) > t * t)"
  unfolding norm_row_def
  by (metis abs_of_nonneg power2_eq_square real_sqrt_abs real_sqrt_less_iff)

text \<open>
  Claim C2 (every lattice of 3 vectors of which exactly k have norm at most the threshold
  keeps exactly those k vectors, in order, and sets \<^verbatim>\<open>ndim\<close> to k) fails on the code.
  After \<^verbatim>\<open>shed_row(i)\<close> the next row moves to index \<open>i\<close> while the loop goes on to
  \<open>i + 1\<close>, so the row that follows a removed row is never tested. For a chain along x
  with threshold 100 and the two long vectors the file gives for the directions that are
  not periodic, the vector (0, 0, 500) of norm 500 stays in the lattice and the dimension
  stored is 2, where the claim asks for the lattice [(1, 0, 0)] and dimension 1.
\<close>

theorem extractDimension_adjacent_long_rows:
  "bravaisLattice (extractDimension 100 (this\<lparr>bravaisLattice := [[1, 0, 0], [0, 500, 0], [0, 0, 500]]\<rparr>))
     = [[1, 0, 0], [0, 0, 500]]
   \<and> ndim (extractDimension 100 (this\<lparr>bravaisLattice := [[1, 0, 0], [0, 500, 0], [0, 0, 500]]\<rparr>)) = 2
   \<and> norm_row [0, 0, 500] > 100
   \<and> filter (\<lambda>v. norm_row v \<le> 100) [[1, 0, 0], [0, 500, 0], [0, 0, 500]] = [[1, 0, 0]]"
  by (simp add: extractDimension_def extractDimension_loop.simps norm_row_gt_iff shed_row_def
      not_less [symmetric])

section \<open>Claims about the matrix block reader\<close>

lemma reads_intD:
  "reads_int fmt_i n \<Longrightarrow> rest = [] \<or> isspace (hd rest) \<Longrightarrow>
     ext_int (fmt_i n @ rest, False) = (Some n, (rest, False))"
  unfolding reads_int_def by blast

lemma reads_doubleD:
  "reads_double fmt_d v \<Longrightarrow> rest = [] \<or> isspace (hd rest) \<Longrightarrow>
     ext_double (fmt_d v @ rest, False) = (Some v, (rest, False))"
  unfolding reads_double_def by blast

lemma isspace_space [simp]: "isspace CHR '' ''"
  by (simp add: isspace_def)

lemma ext_int_skip: "isspace c \<Longrightarrow> ext_int (c # b, False) = ext_int (b, False)"
  by (simp add: ext_int_def)

lemma ext_double_skip: "isspace c \<Longrightarrow> ext_double (c # b, False) = ext_double (b, False)"
  by (simp add: ext_double_def)

lemma ext_ints_Nil [simp]: "ext_ints ([], False) = []"
  by (simp add: ext_ints.simps ext_int_def)

lemma ext_doubles_Nil [simp]: "ext_doubles ([], False) = []"
  by (simp add: ext_doubles.simps ext_double_def)

lemma cols_line_sep: "cols_line fmt_i cs = [] \<or> isspace (hd (cols_line fmt_i cs))"
  by (cases cs) (simp_all add: cols_line_def)

lemma vals_text_sep: "vals_text fmt_d vs = [] \<or> isspace (hd (vals_text fmt_d vs))"
  by (cases vs) (simp_all add: vals_text_def)

lemma ext_ints_cols_line:
  "\<forall>c\<in>set cs. reads_int fmt_i c \<Longrightarrow> ext_ints (cols_line fmt_i cs, False) = cs"
proof (induction cs)
  case Nil
  then show ?case by (simp add: cols_line_def)
next
  case (Cons c cs)
  have "ext_int (cols_line fmt_i (c # cs), False) = ext_int (fmt_i c @ cols_line fmt_i cs, False)"
    by (simp add: cols_line_def ext_int_skip)
  also have "\<dots> = (Some c, (cols_line fmt_i cs, False))"
    using Cons.prems cols_line_sep [of fmt_i cs] by (intro reads_intD) simp_all
  finally show ?case
    using Cons by (subst ext_ints.simps) simp
qed

lemma ext_doubles_vals_text:
  "\<forall>v\<in>set vs. reads_double fmt_d v \<Longrightarrow> ext_doubles (vals_text fmt_d vs, False) = vs"
proof (induction vs)
  case Nil
  then show ?case by (simp add: vals_text_def)
next
  case (Cons v vs)
  have "ext_double (vals_text fmt_d (v # vs), False) = ext_double (fmt_d v @ vals_text fmt_d vs, False)"
    by (simp add: vals_text_def ext_double_skip)
  also have "\<dots> = (Some v, (vals_text fmt_d vs, False))"
    using Cons.prems vals_text_sep [of fmt_d vs] by (intro reads_doubleD) simp_all
  finally show ?case
    using Cons by (subst ext_doubles.simps) simp
qed

lemma partial_cx_cong:
  "(\<And>a b. a < D \<Longrightarrow> b < D \<Longrightarrow> P a b = Q a b) \<Longrightarrow> partial_cx M D P = partial_cx M D Q"
  by (simp add: partial_cx_def)

lemma zeros_cx_partial: "zeros_cx D D = partial_cx M D (\<lambda>a b. False)"
  by (simp add: zeros_cx_def partial_cx_def map_replicate_const)

lemma partial_cx_full:
  assumes "length M = D" and "\<forall>row\<in>set M. length row = D"
  shows "partial_cx M D (\<lambda>a b. True) = cx_of M"
proof (rule nth_equalityI)
  show "length (partial_cx M D (\<lambda>a b. True)) = length (cx_of M)"
    using assms by (simp add: partial_cx_def cx_of_def)
next
  fix a assume "a < length (partial_cx M D (\<lambda>a b. True))"
  then have a: "a < D" by (simp add: partial_cx_def)
  with assms have la: "length (M ! a) = D" by simp
  show "partial_cx M D (\<lambda>a b. True) ! a = cx_of M ! a"
    using a la assms(1) by (auto simp: partial_cx_def cx_of_def intro!: nth_equalityI)
qed

lemma set_elem_partial:
  assumes "a < D" and "b < D"
  shows "set_elem (partial_cx M D P) (int a) (int b) (complex_of_real (M ! a ! b))
           = Inr (partial_cx M D (\<lambda>x y. P x y \<or> (x = a \<and> y = b)))"
proof -
  have "(partial_cx M D P)[a := (partial_cx M D P ! a)[b := complex_of_real (M ! a ! b)]]
          = partial_cx M D (\<lambda>x y. P x y \<or> (x = a \<and> y = b))"
  proof (rule nth_equalityI)
    fix i assume "i < length ((partial_cx M D P)[a := (partial_cx M D P ! a)[b := complex_of_real (M ! a ! b)]])"
    then have i: "i < D" by (simp add: partial_cx_def)
    show "(partial_cx M D P)[a := (partial_cx M D P ! a)[b := complex_of_real (M ! a ! b)]] ! i
            = partial_cx M D (\<lambda>x y. P x y \<or> (x = a \<and> y = b)) ! i"
      using i assms
      by (cases "i = a") (auto simp: partial_cx_def nth_list_update intro!: nth_equalityI)
  qed (simp add: partial_cx_def)
  with assms show ?thesis
    by (simp add: set_elem_def) (simp add: partial_cx_def)
qed

lemma scatter_partial:
  assumes "1 \<le> r" and "r \<le> int D"
  shows "\<forall>c\<in>set (drop i cs). 1 \<le> c \<and> c \<le> int D \<Longrightarrow>
     scatter cs r (map (\<lambda>c. M ! nat (r - 1) ! nat (c - 1)) (drop i cs)) i c0 (partial_cx M D P)
       = Inr (if drop i cs = [] then c0 else last cs,
              partial_cx M D (\<lambda>a b. P a b \<or> (a = nat (r - 1) \<and> int b + 1 \<in> set (drop i cs))))"
proof (induction "length cs - i" arbitrary: i c0 P)
  case 0
  then have "drop i cs = []" by simp
  then show ?case by simp
next
  case (Suc n)
  then have i: "i < length cs" by simp
  then have d: "drop i cs = cs ! i # drop (Suc i) cs"
    by (simp add: Cons_nth_drop_Suc)
  from Suc.prems d have ci: "1 \<le> cs ! i" "cs ! i \<le> int D" and
    rest: "\<forall>c\<in>set (drop (Suc i) cs). 1 \<le> c \<and> c \<le> int D"
    by simp_all
  have a: "nat (r - 1) < D" "int (nat (r - 1)) = r - 1"
    using assms by simp_all
  have b: "nat (cs ! i - 1) < D" "int (nat (cs ! i - 1)) = cs ! i - 1"
    using ci by simp_all
  have se: "set_elem (partial_cx M D P) (r - 1) (cs ! i - 1)
              (complex_of_real (M ! nat (r - 1) ! nat (cs ! i - 1)))
            = Inr (partial_cx M D (\<lambda>x y. P x y \<or> (x = nat (r - 1) \<and> y = nat (cs ! i - 1))))"
    using set_elem_partial [OF a(1) b(1), of M P] a(2) b(2) by simp
  have n: "n = length cs - Suc i" using Suc.hyps(2) by simp
  have l: "(if drop (Suc i) cs = [] then cs ! i else last cs) = last cs"
  proof (cases "drop (Suc i) cs = []")
    case True
    with i have "length cs = Suc i" by simp
    then have "cs \<noteq> []" "i = length cs - 1" by auto
    with True show ?thesis by (simp add: last_conv_nth)
  qed simp
  have pc: "partial_cx M D (\<lambda>a b. (P a b \<or> (a = nat (r - 1) \<and> b = nat (cs ! i - 1)))
                \<or> (a = nat (r - 1) \<and> int b + 1 \<in> set (drop (Suc i) cs)))
          = partial_cx M D (\<lambda>a b. P a b \<or> (a = nat (r - 1) \<and> int b + 1 \<in> set (drop i cs)))"
    using ci by (intro partial_cx_cong) (auto simp: d)
  show ?case
    using Suc.hyps(1) [OF n rest, of "cs ! i"] i se l pc
    by (simp add: d)
qed

lemma reads_int_nonempty: "reads_int fmt_i n \<Longrightarrow> fmt_i n \<noteq> []"
  using reads_intD [of fmt_i n "[]"] by (auto simp: ext_int_def)

lemma row_line_reads:
  assumes pr: "printable fmt_i fmt_d M D"
    and r: "1 \<le> r" "r \<le> int D" and cs: "\<forall>c\<in>set cs. 1 \<le> c \<and> c \<le> int D"
  shows "row_line fmt_i fmt_d M cs r \<noteq> []"
    and "ext_int (row_line fmt_i fmt_d M cs r, False)
           = (Some r, (vals_text fmt_d (map (\<lambda>c. M ! nat (r - 1) ! nat (c - 1)) cs), False))"
    and "ext_doubles (vals_text fmt_d (map (\<lambda>c. M ! nat (r - 1) ! nat (c - 1)) cs), False)
           = map (\<lambda>c. M ! nat (r - 1) ! nat (c - 1)) cs"
proof -
  from pr r have ri: "reads_int fmt_i r" by (simp add: printable_def)
  then show "row_line fmt_i fmt_d M cs r \<noteq> []"
    by (simp add: row_line_def reads_int_nonempty)
  show "ext_int (row_line fmt_i fmt_d M cs r, False)
           = (Some r, (vals_text fmt_d (map (\<lambda>c. M ! nat (r - 1) ! nat (c - 1)) cs), False))"
    unfolding row_line_def using ri vals_text_sep by (rule reads_intD)
  have row: "M ! nat (r - 1) \<in> set M" "length (M ! nat (r - 1)) = D"
    using pr r by (simp_all add: printable_def)
  have "\<forall>v\<in>set (map (\<lambda>c. M ! nat (r - 1) ! nat (c - 1)) cs). reads_double fmt_d v"
  proof
    fix v assume "v \<in> set (map (\<lambda>c. M ! nat (r - 1) ! nat (c - 1)) cs)"
    then obtain c where c: "c \<in> set cs" and v: "v = M ! nat (r - 1) ! nat (c - 1)" by auto
    from c cs have "nat (c - 1) < D" by auto
    with row v have "v \<in> set (M ! nat (r - 1))" by simp
    with pr row(1) show "reads_double fmt_d v" by (simp add: printable_def)
  qed
  then show "ext_doubles (vals_text fmt_d (map (\<lambda>c. M ! nat (r - 1) ! nat (c - 1)) cs), False)
           = map (\<lambda>c. M ! nat (r - 1) ! nat (c - 1)) cs"
    by (rule ext_doubles_vals_text)
qed

lemma body_row:
  assumes pr: "printable fmt_i fmt_d M D" and n: "norbitals this = int D"
    and r: "1 \<le> r" "r \<le> int D"
    and cs: "cs \<noteq> []" "\<forall>c\<in>set cs. 1 \<le> c \<and> c \<le> int D"
    and st: "pm_line st = row_line fmt_i fmt_d M cs r" "pm_colIndices st = cs"
      "pm_matrix st = partial_cx M D P"
  shows "parseMatrix_body this st =
     (if r = int D \<and> last cs = int D
      then Inr (Inl (partial_cx M D (\<lambda>a b. P a b \<or> (a = nat (r - 1) \<and> int b + 1 \<in> set cs)), this))
      else Inr (Inr (this, st\<lparr>pm_matrix := partial_cx M D (\<lambda>a b. P a b \<or> (a = nat (r - 1) \<and> int b + 1 \<in> set cs)),
                              pm_colIndex := last cs, pm_rowIndex := r\<rparr>)))"
proof -
  note rl = row_line_reads [OF pr r cs(2)]
  have sc: "scatter cs r (map (\<lambda>c. M ! nat (r - 1) ! nat (c - 1)) cs) 0 (pm_colIndex st) (partial_cx M D P)
       = Inr (last cs, partial_cx M D (\<lambda>a b. P a b \<or> (a = nat (r - 1) \<and> int b + 1 \<in> set cs)))"
    using scatter_partial [OF r, of 0 cs M "pm_colIndex st" P] cs by simp
  show ?thesis
    unfolding parseMatrix_body_def using rl st sc n by simp
qed

lemma loop_data:
  assumes "l \<noteq> []"
  shows "parseMatrix_loop (this\<lparr>m_file := file_of (l # rest)\<rparr>) st =
     (case parseMatrix_body (this\<lparr>m_file := file_of rest\<rparr>) (st\<lparr>pm_line := l\<rparr>) of
        Inl e \<Rightarrow> Inl e
      | Inr (Inl result) \<Rightarrow> Inr result
      | Inr (Inr (this', st')) \<Rightarrow> parseMatrix_loop this' st')"
  by (subst parseMatrix_loop.simps) (simp add: getline_def)

lemma loop_blank:
  assumes "l \<noteq> []"
  shows "parseMatrix_loop (this\<lparr>m_file := file_of ([] # cl # l # rest)\<rparr>) st =
         parseMatrix_loop (this\<lparr>m_file := file_of (l # rest)\<rparr>)
           (st\<lparr>pm_colIndicesStr := cl, pm_colIndices := ext_ints (cl, False)\<rparr>)"
proof -
  have "parseMatrix_body (this\<lparr>m_file := file_of (cl # l # rest)\<rparr>) (st\<lparr>pm_line := []\<rparr>)
      = parseMatrix_body (this\<lparr>m_file := file_of rest\<rparr>)
          (st\<lparr>pm_colIndicesStr := cl, pm_colIndices := ext_ints (cl, False), pm_line := l\<rparr>)"
    using assms
    by (simp add: parseMatrix_body_def getline_def Let_def
        split: prod.split option.split sum.split)
  then show ?thesis
    using assms
    by (subst parseMatrix_loop.simps, subst loop_data [OF assms]) (simp add: getline_def)
qed

lemma rows_continue:
  assumes pr: "printable fmt_i fmt_d M D" and n: "norbitals this = int D"
    and cs: "cs \<noteq> []" "\<forall>c\<in>set cs. 1 \<le> c \<and> c \<le> int D" and nl: "last cs \<noteq> int D"
  shows "1 \<le> r \<Longrightarrow> pm_colIndices st = cs \<Longrightarrow> pm_matrix st = partial_cx M D P \<Longrightarrow>
     \<exists>st'. parseMatrix_loop
             (this\<lparr>m_file := file_of (map (row_line fmt_i fmt_d M cs) [r..int D] @ rest)\<rparr>) st
           = parseMatrix_loop (this\<lparr>m_file := file_of rest\<rparr>) st'
         \<and> pm_matrix st' = partial_cx M D (\<lambda>a b. P a b \<or> (r \<le> int a + 1 \<and> int b + 1 \<in> set cs))"
proof (induction "nat (int D + 1 - r)" arbitrary: r st P)
  case 0
  then have e: "[r..int D] = []" by simp
  have "partial_cx M D (\<lambda>a b. P a b \<or> (r \<le> int a + 1 \<and> int b + 1 \<in> set cs)) = partial_cx M D P"
    using 0 by (intro partial_cx_cong) auto
  with 0 e show ?case by auto
next
  case (Suc k)
  then have r: "1 \<le> r" "r \<le> int D" by simp_all
  then have u: "[r..int D] = r # [r + 1..int D]" by (simp add: upto_rec1)
  let ?P = "\<lambda>a b. P a b \<or> (a = nat (r - 1) \<and> int b + 1 \<in> set cs)"
  let ?l = "row_line fmt_i fmt_d M cs r"
  let ?rest = "map (row_line fmt_i fmt_d M cs) [r + 1..int D] @ rest"
  let ?st = "st\<lparr>pm_line := ?l, pm_matrix := partial_cx M D ?P, pm_colIndex := last cs, pm_rowIndex := r\<rparr>"
  have ne: "?l \<noteq> []" using row_line_reads(1) [OF pr r cs(2)] .
  have "parseMatrix_body (this\<lparr>m_file := file_of ?rest\<rparr>) (st\<lparr>pm_line := ?l\<rparr>)
          = Inr (Inr (this\<lparr>m_file := file_of ?rest\<rparr>, ?st))"
    using body_row [OF pr _ r cs, of "this\<lparr>m_file := file_of ?rest\<rparr>" "st\<lparr>pm_line := ?l\<rparr>" P]
      n nl Suc.prems by simp
  then have step: "parseMatrix_loop (this\<lparr>m_file := file_of (map (row_line fmt_i fmt_d M cs) [r..int D] @ rest)\<rparr>) st
          = parseMatrix_loop (this\<lparr>m_file := file_of ?rest\<rparr>) ?st"
    using loop_data [OF ne, where this = this and rest = "?rest" and st = st] by (simp add: u)
  have k: "k = nat (int D + 1 - (r + 1))" using Suc.hyps(2) by simp
  obtain st' where st': "parseMatrix_loop (this\<lparr>m_file := file_of ?rest\<rparr>) ?st
           = parseMatrix_loop (this\<lparr>m_file := file_of rest\<rparr>) st'"
      "pm_matrix st' = partial_cx M D (\<lambda>a b. ?P a b \<or> (r + 1 \<le> int a + 1 \<and> int b + 1 \<in> set cs))"
    using Suc.hyps(1) [OF k, of ?st ?P] r Suc.prems by auto
  have "partial_cx M D (\<lambda>a b. ?P a b \<or> (r + 1 \<le> int a + 1 \<and> int b + 1 \<in> set cs))
      = partial_cx M D (\<lambda>a b. P a b \<or> (r \<le> int a + 1 \<and> int b + 1 \<in> set cs))"
    using r by (intro partial_cx_cong) auto
  with step st' show ?case by auto
qed

lemma rows_return:
  assumes pr: "printable fmt_i fmt_d M D" and n: "norbitals this = int D"
    and cs: "cs \<noteq> []" "\<forall>c\<in>set cs. 1 \<le> c \<and> c \<le> int D" and nl: "last cs = int D"
  shows "1 \<le> r \<Longrightarrow> r \<le> int D \<Longrightarrow> pm_colIndices st = cs \<Longrightarrow> pm_matrix st = partial_cx M D P \<Longrightarrow>
     parseMatrix_loop
        (this\<lparr>m_file := file_of (map (row_line fmt_i fmt_d M cs) [r..int D] @ rest)\<rparr>) st
      = Inr (partial_cx M D (\<lambda>a b. P a b \<or> (r \<le> int a + 1 \<and> int b + 1 \<in> set cs)),
             this\<lparr>m_file := file_of rest\<rparr>)"
proof (induction "nat (int D - r)" arbitrary: r st P)
  case 0
  then have r: "1 \<le> r" "r \<le> int D" "r = int D" by simp_all
  then have u: "[r..int D] = [r]" by (simp add: upto_rec1)
  let ?P = "\<lambda>a b. P a b \<or> (a = nat (r - 1) \<and> int b + 1 \<in> set cs)"
  let ?l = "row_line fmt_i fmt_d M cs r"
  have ne: "?l \<noteq> []" using row_line_reads(1) [OF pr r(1,2) cs(2)] .
  have "parseMatrix_body (this\<lparr>m_file := file_of rest\<rparr>) (st\<lparr>pm_line := ?l\<rparr>)
          = Inr (Inl (partial_cx M D ?P, this\<lparr>m_file := file_of rest\<rparr>))"
    using body_row [OF pr _ r(1,2) cs, of "this\<lparr>m_file := file_of rest\<rparr>" "st\<lparr>pm_line := ?l\<rparr>" P]
      n nl r(3) 0 by simp
  then have step: "parseMatrix_loop (this\<lparr>m_file := file_of (map (row_line fmt_i fmt_d M cs) [r..int D] @ rest)\<rparr>) st
          = Inr (partial_cx M D ?P, this\<lparr>m_file := file_of rest\<rparr>)"
    using loop_data [OF ne, where this = this and rest = rest and st = st] by (simp add: u)
  have "partial_cx M D ?P = partial_cx M D (\<lambda>a b. P a b \<or> (r \<le> int a + 1 \<and> int b + 1 \<in> set cs))"
    using r by (intro partial_cx_cong) auto
  with step show ?case by simp
next
  case (Suc k)
  then have r: "1 \<le> r" "r \<le> int D" "r < int D" by simp_all
  then have u: "[r..int D] = r # [r + 1..int D]" by (simp add: upto_rec1)
  let ?P = "\<lambda>a b. P a b \<or> (a = nat (r - 1) \<and> int b + 1 \<in> set cs)"
  let ?l = "row_line fmt_i fmt_d M cs r"
  let ?rest = "map (row_line fmt_i fmt_d M cs) [r + 1..int D] @ rest"
  let ?st = "st\<lparr>pm_line := ?l, pm_matrix := partial_cx M D ?P, pm_colIndex := last cs, pm_rowIndex := r\<rparr>"
  have ne: "?l \<noteq> []" using row_line_reads(1) [OF pr r(1,2) cs(2)] .
  have "parseMatrix_body (this\<lparr>m_file := file_of ?rest\<rparr>) (st\<lparr>pm_line := ?l\<rparr>)
          = Inr (Inr (this\<lparr>m_file := file_of ?rest\<rparr>, ?st))"
    using body_row [OF pr _ r(1,2) cs, of "this\<lparr>m_file := file_of ?rest\<rparr>" "st\<lparr>pm_line := ?l\<rparr>" P]
      n r(3) Suc.prems by simp
  then have step: "parseMatrix_loop (this\<lparr>m_file := file_of (map (row_line fmt_i fmt_d M cs) [r..int D] @ rest)\<rparr>) st
          = parseMatrix_loop (this\<lparr>m_file := file_of ?rest\<rparr>) ?st"
    using loop_data [OF ne, where this = this and rest = "?rest" and st = st] by (simp add: u)
  have k: "k = nat (int D - (r + 1))" using Suc.hyps(2) by simp
  have ih: "parseMatrix_loop (this\<lparr>m_file := file_of ?rest\<rparr>) ?st
           = Inr (partial_cx M D (\<lambda>a b. ?P a b \<or> (r + 1 \<le> int a + 1 \<and> int b + 1 \<in> set cs)),
                  this\<lparr>m_file := file_of rest\<rparr>)"
    using Suc.hyps(1) [OF k, of ?st ?P] r Suc.prems by auto
  have "partial_cx M D (\<lambda>a b. ?P a b \<or> (r + 1 \<le> int a + 1 \<and> int b + 1 \<in> set cs))
      = partial_cx M D (\<lambda>a b. P a b \<or> (r \<le> int a + 1 \<and> int b + 1 \<in> set cs))"
    using r by (intro partial_cx_cong) auto
  with step ih show ?case by simp
qed

lemma block_start:
  assumes pr: "printable fmt_i fmt_d M D" and D: "0 < D"
    and cs: "\<forall>c\<in>set cs. 1 \<le> c \<and> c \<le> int D"
  shows "parseMatrix_loop (this\<lparr>m_file := file_of (block_text fmt_i fmt_d M D cs @ rest)\<rparr>) st
       = parseMatrix_loop
           (this\<lparr>m_file := file_of (map (row_line fmt_i fmt_d M cs) [1..int D] @ rest)\<rparr>)
           (st\<lparr>pm_colIndicesStr := cols_line fmt_i cs, pm_colIndices := cs\<rparr>)"
proof -
  have u: "[1..int D] = 1 # [2..int D]" using D by (simp add: upto_rec1)
  have ne: "row_line fmt_i fmt_d M cs 1 \<noteq> []"
    using row_line_reads(1) [OF pr _ _ cs, of 1] D by simp
  have "\<forall>c\<in>set cs. reads_int fmt_i c"
    using pr cs by (simp add: printable_def)
  then have ei: "ext_ints (cols_line fmt_i cs, False) = cs"
    by (rule ext_ints_cols_line)
  show ?thesis
    using loop_blank [OF ne, where this = this and cl = "cols_line fmt_i cs" and st = st
        and rest = "map (row_line fmt_i fmt_d M cs) [2..int D] @ rest"]
    by (simp add: block_text_def u ei)
qed

lemma block_continue:
  assumes pr: "printable fmt_i fmt_d M D" and n: "norbitals this = int D" and D: "0 < D"
    and cs: "cs \<noteq> []" "\<forall>c\<in>set cs. 1 \<le> c \<and> c \<le> int D" and nl: "last cs \<noteq> int D"
    and st: "pm_matrix st = partial_cx M D P"
  shows "\<exists>st'. parseMatrix_loop (this\<lparr>m_file := file_of (block_text fmt_i fmt_d M D cs @ rest)\<rparr>) st
           = parseMatrix_loop (this\<lparr>m_file := file_of rest\<rparr>) st'
         \<and> pm_matrix st' = partial_cx M D (\<lambda>a b. P a b \<or> int b + 1 \<in> set cs)"
proof -
  let ?st = "st\<lparr>pm_colIndicesStr := cols_line fmt_i cs, pm_colIndices := cs\<rparr>"
  obtain st' where st': "parseMatrix_loop
             (this\<lparr>m_file := file_of (map (row_line fmt_i fmt_d M cs) [1..int D] @ rest)\<rparr>) ?st
           = parseMatrix_loop (this\<lparr>m_file := file_of rest\<rparr>) st'"
     "pm_matrix st' = partial_cx M D (\<lambda>a b. P a b \<or> (1 \<le> int a + 1 \<and> int b + 1 \<in> set cs))"
    using rows_continue [OF pr n cs nl, where r = 1 and st = "?st" and P = P and rest = rest] st by auto
  have "partial_cx M D (\<lambda>a b. P a b \<or> (1 \<le> int a + 1 \<and> int b + 1 \<in> set cs))
      = partial_cx M D (\<lambda>a b. P a b \<or> int b + 1 \<in> set cs)"
    by (intro partial_cx_cong) auto
  with st' block_start [OF pr D cs(2), where this = this and rest = rest and st = st] show ?thesis by auto
qed

lemma block_return:
  assumes pr: "printable fmt_i fmt_d M D" and n: "norbitals this = int D" and D: "0 < D"
    and cs: "cs \<noteq> []" "\<forall>c\<in>set cs. 1 \<le> c \<and> c \<le> int D" and nl: "last cs = int D"
    and st: "pm_matrix st = partial_cx M D P"
  shows "parseMatrix_loop (this\<lparr>m_file := file_of (block_text fmt_i fmt_d M D cs @ rest)\<rparr>) st
           = Inr (partial_cx M D (\<lambda>a b. P a b \<or> int b + 1 \<in> set cs),
                  this\<lparr>m_file := file_of rest\<rparr>)"
proof -
  let ?st = "st\<lparr>pm_colIndicesStr := cols_line fmt_i cs, pm_colIndices := cs\<rparr>"
  have "parseMatrix_loop
             (this\<lparr>m_file := file_of (map (row_line fmt_i fmt_d M cs) [1..int D] @ rest)\<rparr>) ?st
           = Inr (partial_cx M D (\<lambda>a b. P a b \<or> (1 \<le> int a + 1 \<and> int b + 1 \<in> set cs)),
                  this\<lparr>m_file := file_of rest\<rparr>)"
    using rows_return [OF pr n cs nl, where r = 1 and st = "?st" and P = P and rest = rest] st D by simp
  moreover have "partial_cx M D (\<lambda>a b. P a b \<or> (1 \<le> int a + 1 \<and> int b + 1 \<in> set cs))
      = partial_cx M D (\<lambda>a b. P a b \<or> int b + 1 \<in> set cs)"
    by (intro partial_cx_cong) auto
  ultimately show ?thesis
    using block_start [OF pr D cs(2), where this = this and rest = rest and st = st] by simp
qed

lemma blocks_return:
  assumes pr: "printable fmt_i fmt_d M D" and n: "norbitals this = int D" and D: "0 < D"
  shows "bs \<noteq> [] \<Longrightarrow> \<forall>cs\<in>set bs. cs \<noteq> [] \<and> (\<forall>c\<in>set cs. 1 \<le> c \<and> c \<le> int D) \<Longrightarrow>
     \<forall>cs\<in>set (butlast bs). last cs \<noteq> int D \<Longrightarrow> last (last bs) = int D \<Longrightarrow>
     pm_matrix st = partial_cx M D P \<Longrightarrow>
     parseMatrix_loop (this\<lparr>m_file := file_of (blocked_text fmt_i fmt_d M D bs @ rest)\<rparr>) st
       = Inr (partial_cx M D (\<lambda>a b. P a b \<or> int b + 1 \<in> set (concat bs)),
              this\<lparr>m_file := file_of rest\<rparr>)"
proof (induction bs arbitrary: st P)
  case Nil
  then show ?case by simp
next
  case (Cons cs bs)
  show ?case
  proof (cases "bs = []")
    case True
    with Cons.prems block_return [OF pr n D, where cs = cs and st = st and P = P and rest = rest] show ?thesis
      by (simp add: blocked_text_def)
  next
    case False
    with Cons.prems have cs: "cs \<noteq> []" "\<forall>c\<in>set cs. 1 \<le> c \<and> c \<le> int D" "last cs \<noteq> int D"
      by simp_all
    let ?rest = "blocked_text fmt_i fmt_d M D bs @ rest"
    obtain st' where st': "parseMatrix_loop (this\<lparr>m_file := file_of (block_text fmt_i fmt_d M D cs @ ?rest)\<rparr>) st
           = parseMatrix_loop (this\<lparr>m_file := file_of ?rest\<rparr>) st'"
      "pm_matrix st' = partial_cx M D (\<lambda>a b. P a b \<or> int b + 1 \<in> set cs)"
      using block_continue [OF pr n D cs Cons.prems(5), where rest = "?rest"] by auto
    have ih: "parseMatrix_loop (this\<lparr>m_file := file_of ?rest\<rparr>) st'
        = Inr (partial_cx M D (\<lambda>a b. (P a b \<or> int b + 1 \<in> set cs) \<or> int b + 1 \<in> set (concat bs)),
               this\<lparr>m_file := file_of rest\<rparr>)"
      using Cons.IH [OF False _ _ _ st'(2)] Cons.prems False by simp
    have "partial_cx M D (\<lambda>a b. (P a b \<or> int b + 1 \<in> set cs) \<or> int b + 1 \<in> set (concat bs))
        = partial_cx M D (\<lambda>a b. P a b \<or> int b + 1 \<in> set (concat (cs # bs)))"
      by (intro partial_cx_cong) auto
    with st' ih show ?thesis by (simp add: blocked_text_def)
  qed
qed

lemma consecutive_blocks:
  assumes c: "concat bs = [1..int D]" and ne: "[] \<notin> set bs" and D: "0 < D"
  shows "bs \<noteq> []"
    and "\<forall>cs\<in>set bs. cs \<noteq> [] \<and> (\<forall>c\<in>set cs. 1 \<le> c \<and> c \<le> int D)"
    and "\<forall>cs\<in>set (butlast bs). last cs \<noteq> int D"
    and "last (last bs) = int D"
proof -
  show bne: "bs \<noteq> []" using c D by auto
  show "\<forall>cs\<in>set bs. cs \<noteq> [] \<and> (\<forall>c\<in>set cs. 1 \<le> c \<and> c \<le> int D)"
  proof (intro ballI conjI)
    fix cs assume cs: "cs \<in> set bs"
    with ne show "cs \<noteq> []" by auto
    fix x assume "x \<in> set cs"
    with cs have "x \<in> set (concat bs)" by auto
    then show "1 \<le> x" "x \<le> int D" by (simp_all add: c)
  qed
  have lne: "last bs \<noteq> []" using bne ne last_in_set by metis
  have sp: "concat bs = concat (butlast bs) @ last bs"
    using bne by (metis append_butlast_last_id concat.simps concat_append self_append_conv)
  have "last (concat bs) = last (last bs)" using lne by (simp add: sp)
  moreover have "last [1..int D] = int D" using D by (simp add: upto_rec2)
  ultimately show ll: "last (last bs) = int D" by (simp add: c)
  have "distinct (concat bs)" unfolding c by simp
  then have "distinct (concat (butlast bs) @ last bs)" unfolding sp .
  then have dj: "set (concat (butlast bs)) \<inter> set (last bs) = {}" by simp
  show "\<forall>cs\<in>set (butlast bs). last cs \<noteq> int D"
  proof
    fix cs assume cs: "cs \<in> set (butlast bs)"
    then have "cs \<in> set bs" by (rule in_set_butlastD)
    with ne have "cs \<noteq> []" by auto
    then have "last cs \<in> set cs" by simp
    with cs have "last cs \<in> set (concat (butlast bs))" by auto
    moreover have "int D \<in> set (last bs)" using ll lne last_in_set by metis
    ultimately show "last cs \<noteq> int D" using dj by auto
  qed
qed

text \<open>
  Claim C1: for every square matrix of known dimension \<open>D\<close> printed in column blocks (a
  blank line, the line of 1-based column indices, then one line per row with the 1-based
  row index and the values for those columns), \<^verbatim>\<open>parseMatrix\<close> reconstructs the dense
  matrix exactly, for every partition of the columns into blocks. The blocks \<open>bs\<close> are any
  way of cutting the columns \<open>1, \<dots>, D\<close> into consecutive non-empty runs; the text may be
  followed by any lines \<open>rest\<close>, which are left unread.
\<close>

theorem parseMatrix_roundtrip:
  assumes D: "0 < D" and n: "norbitals this = int D"
    and pr: "printable fmt_i fmt_d M D"
    and bs: "concat bs = [1..int D]" "[] \<notin> set bs"
    and f: "m_file this = file_of (blocked_text fmt_i fmt_d M D bs @ rest)"
  shows "parseMatrix this = Inr (cx_of M, this\<lparr>m_file := file_of rest\<rparr>)"
proof -
  note cb = consecutive_blocks [OF bs D]
  let ?st = "\<lparr>pm_line = [], pm_matrix = zeros_cx D D, pm_colIndicesStr = [],
              pm_colIndices = [], pm_colIndex = 0, pm_rowIndex = 0\<rparr>"
  have t: "this = this\<lparr>m_file := file_of (blocked_text fmt_i fmt_d M D bs @ rest)\<rparr>"
    using f by simp
  have "parseMatrix_loop this ?st
      = Inr (partial_cx M D (\<lambda>a b. False \<or> int b + 1 \<in> set (concat bs)), this\<lparr>m_file := file_of rest\<rparr>)"
    using blocks_return [OF pr n D cb, where st = "?st" and P = "\<lambda>a b. False" and rest = rest] t
    by (simp add: zeros_cx_partial [of D M])
  moreover have "partial_cx M D (\<lambda>a b. False \<or> int b + 1 \<in> set (concat bs)) = partial_cx M D (\<lambda>a b. True)"
    by (intro partial_cx_cong) (simp add: bs)
  moreover have "partial_cx M D (\<lambda>a b. True) = cx_of M"
    using pr by (intro partial_cx_full) (simp_all add: printable_def)
  ultimately show ?thesis
    using n by (simp add: parseMatrix_def)
qed

subsection \<open>Evaluating the reader on a concrete text\<close>

lemmas lex_defs = ext_int_def ext_double_def ext_word_def take_sign_def take_fraction_def
  take_exponent_def pow10_def digits_val_def digit_val_def isspace_def isdigit_def

lemmas pm_eval = parseMatrix_def parseMatrix_loop.simps parseMatrix_body_def getline_def
  ext_ints.simps ext_doubles.simps zeros_cx_def set_elem_def lex_defs

lemma isspace_not_digit: "isspace c \<Longrightarrow> \<not> isdigit c"
  by (auto simp: isspace_def isdigit_def)

lemma sep_cases: "rest = [] \<or> isspace (hd rest) \<Longrightarrow> (rest = [] \<Longrightarrow> P) \<Longrightarrow> (\<And>c cs. rest = c # cs \<Longrightarrow> isspace c \<Longrightarrow> P) \<Longrightarrow> P"
  by (cases rest) auto

lemma takeWhile_digit_sep [simp]:
  "rest = [] \<or> isspace (hd rest) \<Longrightarrow> takeWhile isdigit rest = []"
  by (cases rest) (auto simp: isspace_not_digit)

lemma dropWhile_digit_sep [simp]:
  "rest = [] \<or> isspace (hd rest) \<Longrightarrow> dropWhile isdigit rest = rest"
  by (cases rest) (auto simp: isspace_not_digit)

lemma ex_reads_int: "reads_int ex_fmt_i 1" "reads_int ex_fmt_i 2"
  by (simp_all add: reads_int_def ex_fmt_i_def ext_int_def take_sign_def isspace_def isdigit_def
      digits_val_def digit_val_def)

lemma take_exponent_sep:
  "rest = [] \<or> isspace (hd rest) \<Longrightarrow> take_exponent rest = (Some 0, rest)"
  by (cases rest) (auto simp: take_exponent_def isspace_def)

lemma ex_reads_double:
  "reads_double ex_fmt_d (3 / 2)" "reads_double ex_fmt_d (- 2)" "reads_double ex_fmt_d 0"
  "reads_double ex_fmt_d 4"
  by (simp_all add: reads_double_def ex_fmt_d_def ext_double_def take_sign_def take_fraction_def
      take_exponent_def pow10_def digits_val_def digit_val_def isspace_def isdigit_def)


lemma ex_printable: "printable ex_fmt_i ex_fmt_d [[3 / 2, - 2], [0, 4]] 2"
proof -
  have "reads_int ex_fmt_i n" if "1 \<le> n" "n \<le> 2" for n :: int
  proof -
    from that have "n = 1 \<or> n = 2" by arith
    with ex_reads_int show ?thesis by auto
  qed
  then show ?thesis
    using ex_reads_double by (auto simp: printable_def)
qed

lemma ex_blocked_text:
  "blocked_text ex_fmt_i ex_fmt_d [[3 / 2, - 2], [0, 4]] 2 [[1], [2]] =
     ['''', ''   1'', ''  1 1.5000E+00'', ''  2 0.0000E+00'',
      '''', ''   2'', ''  1 -2.0000E+00'', ''  2 4.0000E+00'']"
  by (simp add: blocked_text_def block_text_def cols_line_def row_line_def vals_text_def
      ex_fmt_i_def ex_fmt_d_def upto_rec1)

text \<open>
  Witness for C1: the matrix with rows (1.5, -2) and (0, 4), printed one column per block
  and followed by one more line.
\<close>

theorem parseMatrix_roundtrip_witness:
  "printable ex_fmt_i ex_fmt_d [[3 / 2, - 2], [0, 4]] 2 \<and>
   concat [[1], [2]] = [1..int 2] \<and>
   parseMatrix
     (new_config (file_of
        ['''', ''   1'', ''  1 1.5000E+00'', ''  2 0.0000E+00'',
         '''', ''   2'', ''  1 -2.0000E+00'', ''  2 4.0000E+00'', ''next''])
        \<lparr>norbitals := 2\<rparr>)
     = Inr ([[Complex (3 / 2) 0, - 2], [0, 4]],
            new_config (file_of [''next''])\<lparr>norbitals := 2\<rparr>)"
proof -
  let ?cfg = "new_config (file_of
        ['''', ''   1'', ''  1 1.5000E+00'', ''  2 0.0000E+00'',
         '''', ''   2'', ''  1 -2.0000E+00'', ''  2 4.0000E+00'', ''next''])
        \<lparr>norbitals := 2\<rparr>"
  have c: "concat [[1], [2]] = [1..int 2]" by (simp add: upto_rec1)
  have "parseMatrix ?cfg = Inr (cx_of [[3 / 2, - 2], [0, 4]], ?cfg\<lparr>m_file := file_of [''next'']\<rparr>)"
    by (rule parseMatrix_roundtrip [where D = 2 and bs = "[[1], [2]]", OF _ _ ex_printable c])
      (simp_all add: new_config_def ex_blocked_text)
  moreover have "cx_of [[3 / 2, - 2], [0, 4]] = [[Complex (3 / 2) 0, - 2], [0, 4]]"
    by (simp add: cx_of_def complex_eq_iff)
  ultimately show ?thesis
    using ex_printable c by (simp add: new_config_def)
qed

text \<open>
  Claim C7 (a stream that ends before the data line of the bottom-right corner makes
  \<^verbatim>\<open>parseMatrix\<close> raise an explicit error) fails on the code. When \<^verbatim>\<open>std::getline\<close>
  fails the \<^verbatim>\<open>while\<close> loop is left and control reaches the closing brace of a function
  that returns \<^verbatim>\<open>arma::cx_mat\<close>: nothing is thrown, and what the caller receives is
  undefined. Here the text of a matrix of dimension 2 stops after its first row.
\<close>

theorem parseMatrix_truncated_no_error:
  "parseMatrix
     (new_config (file_of ['''', ''   1   2'', ''  1 1.5000E+00 -2.0000E+00''])
        \<lparr>norbitals := 2\<rparr>)
     = Inl (Undefined ''parseMatrix: end of the function reached without a return'')"
  by (simp add: new_config_def pm_eval)

section \<open>Claims about atoms and species\<close>

lemma first_seen_snoc:
  "first_seen (p @ [l]) = (if l \<in> set p then first_seen p else first_seen p @ [l])"
  by (simp add: first_seen_def)

lemma set_first_seen [simp]: "set (first_seen p) = set p"
  by (simp add: first_seen_def)

lemma species_index_old:
  "l \<in> set p \<Longrightarrow> species_index (p @ q) l = species_index p l"
  by (simp add: species_index_def takeWhile_append1)

lemma species_index_new:
  "l \<notin> set p \<Longrightarrow> species_index (p @ [l]) l = card (set p)"
proof -
  assume "l \<notin> set p"
  then have "takeWhile (\<lambda>s. s \<noteq> l) (p @ [l]) = p"
    by (induction p) auto
  then show ?thesis by (simp add: species_index_def)
qed

lemma first_shells_old:
  "l \<in> fst ` set prs \<Longrightarrow> first_shells (prs @ q) l = first_shells prs l"
  by (auto simp: first_shells_def map_add_def split: option.splits)
    (metis fst_conv image_iff map_of_eq_None_iff option.distinct(1))+

lemma first_shells_new:
  "l \<notin> fst ` set prs \<Longrightarrow> first_shells (prs @ [(l, n, x, y, z)]) l = n"
proof -
  assume "l \<notin> fst ` set prs"
  then have "map_of prs l = None" by (simp add: map_of_eq_None_iff)
  then show ?thesis by (simp add: first_shells_def map_add_def)
qed

lemma update_new_key:
  "k \<notin> fst ` set al \<Longrightarrow> AList.update k v al = al @ [(k, v)]"
  by (induction al) auto

lemma atom_recordD:
  "atom_record line = Some (l, n, x, y, z) \<Longrightarrow>
     atom_fields line = ((Some l, Some n, Some x, Some y, Some z), False)"
  by (auto simp: atom_record_def split: prod.splits option.splits bool.splits)

lemma parseAtoms_body_inv:
  assumes inv: "pa_inv n labels prs st" and rec: "atom_record line = Some r"
    and i: "length prs < n" and lab: "labels = map fst (prs @ [r]) @ q"
  shows "\<exists>st'. parseAtoms_body (length prs) (file_of (line # rest)) st = Inr (file_of rest, st')
           \<and> pa_inv n labels (prs @ [r]) st'"
proof -
  obtain l nsh x y z where r: "r = (l, nsh, x, y, z)" by (cases r)
  note af = atom_recordD [OF rec [unfolded r]]
  let ?p = "map fst prs"
  let ?im = "pa_chemical_species_to_index st"
  have sp: "pa_species st = first_seen ?p" and
    mo: "map_of ?im = (\<lambda>l. if l \<in> fst ` set prs then Some (int (species_index ?p l)) else None)" and
    len: "length ?im = card (fst ` set prs)" and
    sh: "pa_shellsPerSpecies st = map (first_shells prs) (first_seen ?p)" and
    ns: "pa_nspecies st = int (card (fst ` set prs))" and
    mt: "pa_motif st = map (motif_row labels) prs @ replicate (n - length prs) [0, 0, 0, 0]"
    using inv by (simp_all add: pa_inv_def)
  have fin: "finite (fst ` set prs)" by simp
  have idx_all: "species_index labels l = species_index (?p @ [l]) l"
    unfolding lab r using species_index_old [of l "?p @ [l]" q] by simp
  have row_old: "map (motif_row labels) prs = map (motif_row labels) prs" ..
  have upd: "(map (motif_row labels) prs @ replicate (n - length prs) [0, 0, 0, 0])[length prs := v]
           = map (motif_row labels) (prs) @ v # replicate (n - length (prs @ [r])) [0, 0, 0, 0]" for v
    using i by (cases "n - length prs") (simp_all add: list_update_append)
  show ?thesis
  proof (cases "l \<in> fst ` set prs")
    case True
    then have old: "species_index (?p @ [l]) l = species_index ?p l"
      using species_index_old [of l ?p "[l]"] by simp
    let ?st' = "st\<lparr>pa_line := line, pa_chemical_species := l, pa_nshells := Some nsh,
        pa_x := Some x, pa_y := Some y, pa_z := Some z,
        pa_motif := (pa_motif st)[length prs := [x, y, z, real (species_index labels l)]]\<rparr>"
    have "parseAtoms_body (length prs) (file_of (line # rest)) st = Inr (file_of rest, ?st')"
      using True i
      by (simp add: parseAtoms_body_def getline_def af assign_def sp mo mt idx_all old)
    moreover have "pa_inv n labels (prs @ [r]) ?st'"
      using True sp mo len sh ns
      by (auto simp: pa_inv_def r first_seen_snoc insert_absorb mt upd motif_row_def
          species_index_old first_shells_old fun_eq_iff image_iff)
    ultimately show ?thesis by blast
  next
    case False
    then have new: "species_index (?p @ [l]) l = card (fst ` set prs)"
      using species_index_new [of l ?p] by simp
    let ?st' = "st\<lparr>pa_line := line, pa_chemical_species := l, pa_nshells := Some nsh,
        pa_x := Some x, pa_y := Some y, pa_z := Some z,
        pa_species := pa_species st @ [l],
        pa_shellsPerSpecies := pa_shellsPerSpecies st @ [nsh],
        pa_chemical_species_to_index := AList.update l (int (length ?im)) ?im,
        pa_nspecies := pa_nspecies st + 1,
        pa_motif := (pa_motif st)[length prs := [x, y, z, real (species_index labels l)]]\<rparr>"
    have "parseAtoms_body (length prs) (file_of (line # rest)) st = Inr (file_of rest, ?st')"
      using False i
      by (simp add: parseAtoms_body_def getline_def af assign_def sp mt idx_all new len
          AList.update_conv')
    moreover have "pa_inv n labels (prs @ [r]) ?st'"
    proof -
      have "dom (map_of ?im) = fst ` set prs"
        unfolding mo by (auto simp: dom_def)
      then have k: "l \<notin> fst ` set ?im"
        using False by (simp add: dom_map_of_conv_image_fst)
      have fs: "map (first_shells (prs @ [r])) (first_seen ?p) = map (first_shells prs) (first_seen ?p)"
        by (rule map_cong [OF refl], rule first_shells_old) force
      have c: "card (insert l (fst ` set prs)) = Suc (card (fst ` set prs))"
        using False by simp
      show ?thesis
        unfolding pa_inv_def
        using False sp mo len sh ns fs c
        by (auto simp: r first_seen_snoc mt upd motif_row_def AList.update_conv'
            update_new_key [OF k] species_index_old first_shells_new new fun_eq_iff
            map_add_def)
    qed
    ultimately show ?thesis by blast
  qed
qed

lemma parseAtoms_loop_inv:
  "map atom_record ls = map Some rs \<Longrightarrow> pa_inv n labels prs st \<Longrightarrow>
   length prs + length ls \<le> n \<Longrightarrow> labels = map fst (prs @ rs) @ q \<Longrightarrow>
   \<exists>st'. parseAtoms_loop (length ls) (length prs) (file_of (ls @ rest)) st = Inr (file_of rest, st')
      \<and> pa_inv n labels (prs @ rs) st'"
proof (induction ls arbitrary: rs prs st)
  case Nil
  then show ?case by simp
next
  case (Cons line ls)
  then obtain r rs' where rs: "rs = r # rs'" and r: "atom_record line = Some r"
    and rs': "map atom_record ls = map Some rs'"
    by (cases rs) auto
  have lab: "labels = map fst (prs @ [r]) @ (map fst rs' @ q)"
    using Cons.prems(4) rs by simp
  have i: "length prs < n" using Cons.prems(3) by simp
  obtain st1 where b: "parseAtoms_body (length prs) (file_of (line # ls @ rest)) st
        = Inr (file_of (ls @ rest), st1)"
    and inv1: "pa_inv n labels (prs @ [r]) st1"
    using parseAtoms_body_inv [OF Cons.prems(2) r i lab, where rest = "ls @ rest"] by blast
  have "\<exists>st'. parseAtoms_loop (length ls) (length (prs @ [r])) (file_of (ls @ rest)) st1
            = Inr (file_of rest, st') \<and> pa_inv n labels ((prs @ [r]) @ rs') st'"
    using Cons.prems(3,4) rs by (intro Cons.IH [OF rs' inv1]) simp_all
  with b rs show ?case by simp
qed

lemma parseAtoms_result:
  assumes f: "m_file this = file_of (header # ls @ rest)" and n: "natoms this = int (length ls)"
    and ne: "ls \<noteq> []" and recs: "map atom_record ls = map Some recs"
  shows "parseAtoms this =
     Inr (this\<lparr>m_file := file_of rest,
               motif := map (motif_row (map fst recs)) recs,
               shellsPerSpecies := map (first_shells recs) (first_seen (map fst recs)),
               nspecies := int (card (set (map fst recs)))\<rparr>)"
proof -
  let ?st0 = "\<lparr>pa_line = header, pa_nshells = None, pa_x = None, pa_y = None, pa_z = None,
                pa_chemical_species = [], pa_shellsPerSpecies = [],
                pa_chemical_species_to_index = [], pa_species = [],
                pa_motif = replicate (length ls) [0, 0, 0, 0], pa_nspecies = 0\<rparr>"
  have len: "length recs = length ls"
    using recs by (metis length_map)
  have inv0: "pa_inv (length ls) (map fst recs) [] ?st0"
    by (simp add: pa_inv_def first_seen_def fun_eq_iff)
  obtain st' where l: "parseAtoms_loop (length ls) (length ([] :: (string \<times> int \<times> real \<times> real \<times> real) list))
                     (file_of (ls @ rest)) ?st0 = Inr (file_of rest, st')"
    and inv: "pa_inv (length ls) (map fst recs) ([] @ recs) st'"
    using parseAtoms_loop_inv [OF recs inv0, where q = "[]" and rest = rest] by auto
  have m: "pa_motif st' = map (motif_row (map fst recs)) recs" "pa_motif st' \<noteq> []"
    using inv len ne by (auto simp: pa_inv_def)
  show ?thesis
    using l inv m n f
    by (simp add: parseAtoms_def getline_def pa_inv_def)
qed

lemmas pa_eval = parseAtoms_def parseAtoms_loop.simps parseAtoms_body_def atom_fields_def
  getline_def assign_def lex_defs eval_nat_numeral Let_def

text \<open>
  Claim C6: for every sequence of atom records, \<^verbatim>\<open>parseAtoms\<close> assigns species indices in
  first-seen order of the species label, whatever repeats follow, and each motif row
  carries the position and that index as its numeric tag. The index of a label is the
  number of distinct labels before its first occurrence; the shell counts are stored in
  the same order.
\<close>

theorem parseAtoms_first_seen:
  assumes "m_file this = file_of (header # ls @ rest)" and "natoms this = int (length ls)"
    and "ls \<noteq> []" and "map atom_record ls = map Some recs"
  shows "parseAtoms this =
     Inr (this\<lparr>m_file := file_of rest,
               motif := map (\<lambda>(l, n, x, y, z).
                          [x, y, z,
                           real (length (remdups (takeWhile (\<lambda>s. s \<noteq> l) (map fst recs))))])
                        recs,
               shellsPerSpecies := map (first_shells recs) (first_seen (map fst recs)),
               nspecies := int (length (remdups (map fst recs)))\<rparr>)"
proof -
  have "motif_row (map fst recs) = (\<lambda>(l, n, x, y, z).
          [x, y, z, real (length (remdups (takeWhile (\<lambda>s. s \<noteq> l) (map fst recs))))])"
    by (auto simp: motif_row_def species_index_def fun_eq_iff length_remdups_card_conv)
  with parseAtoms_result [OF assms] show ?thesis
    by (simp add: length_remdups_card_conv)
qed

lemma ex_atom_records:
  "map atom_record
     [''   1   6 C    4     0.000  1.5  -2.000E+00'', ''   2   1 H    2  1.0 1.0 1.0'',
      ''   3   6 C    4  2.0 2.0 2.0'', ''   4   8 O    5  3.0 3.0 3.0'',
      ''   5   1 H    2  4.0 4.0 4.0'']
   = map Some [(''C'', 4, 0, 3 / 2, - 2), (''H'', 2, 1, 1, 1), (''C'', 4, 2, 2, 2),
               (''O'', 5, 3, 3, 3), (''H'', 2, 4, 4, 4)]"
  by (simp add: atom_record_def atom_fields_def lex_defs)

text \<open>
  Witness for C6, the example of the claim: atoms in the order C, H, C, O, H get the tags
  0, 1, 0, 2, 1, that is C = 0, H = 1, O = 2.
\<close>

theorem parseAtoms_first_seen_witness:
  "parseAtoms
     (new_config (file_of
        ['' *****'', ''   1   6 C    4     0.000  1.5  -2.000E+00'',
         ''   2   1 H    2  1.0 1.0 1.0'', ''   3   6 C    4  2.0 2.0 2.0'',
         ''   4   8 O    5  3.0 3.0 3.0'', ''   5   1 H    2  4.0 4.0 4.0'', ''next''])
        \<lparr>natoms := 5\<rparr>)
   = Inr (new_config (file_of [''next''])
        \<lparr>natoms := 5,
         motif := [[0, 3 / 2, - 2, 0], [1, 1, 1, 1], [2, 2, 2, 0], [3, 3, 3, 2], [4, 4, 4, 1]],
         shellsPerSpecies := [4, 2, 5], nspecies := 3\<rparr>)"
  using parseAtoms_first_seen [OF _ _ _ ex_atom_records,
      where this = "new_config (file_of
        ['' *****'', ''   1   6 C    4     0.000  1.5  -2.000E+00'',
         ''   2   1 H    2  1.0 1.0 1.0'', ''   3   6 C    4  2.0 2.0 2.0'',
         ''   4   8 O    5  3.0 3.0 3.0'', ''   5   1 H    2  4.0 4.0 4.0'', ''next''])
        \<lparr>natoms := 5\<rparr>" and header = "'' *****''" and rest = "[''next'']"]
  by (simp add: new_config_def first_shells_def first_seen_def)

text \<open>
  Claim C9 (after the atom-parsing pass the stored motif is centred, the first atom at
  the origin) fails on the code: the loop that subtracts the reference atom is commented
  out, so the rows are stored as read. Counterexample: two atoms, the first at (1, 2, 3).
\<close>

theorem parseAtoms_motif_not_centered:
  "\<exists>this'. parseAtoms
       (new_config (file_of
          ['' *****'', ''   1   6 C    4  1.0 2.0 3.0'', ''   2   1 H    2  2.0 2.0 2.0''])
          \<lparr>natoms := 2\<rparr>) = Inr this'
     \<and> motif this' = [[1, 2, 3, 0], [2, 2, 2, 1]]
     \<and> take 3 (motif this' ! 0) \<noteq> [0, 0, 0]"
  by (simp add: new_config_def pa_eval)

text \<open>
  Claim C9 as amended: after the atom-parsing pass the stored motif holds every atom's
  position exactly as it was read; no translation is applied.
\<close>

theorem parseAtoms_motif_as_read:
  assumes "m_file this = file_of (header # ls @ rest)" and "natoms this = int (length ls)"
    and "ls \<noteq> []" and "map atom_record ls = map Some recs"
  shows "\<exists>this'. parseAtoms this = Inr this'
           \<and> map (take 3) (motif this') = map (\<lambda>(l, n, x, y, z). [x, y, z]) recs"
proof -
  have "map (take 3) (map (motif_row (map fst recs)) recs) = map (\<lambda>(l, n, x, y, z). [x, y, z]) recs"
    by (auto simp: motif_row_def)
  with parseAtoms_result [OF assms] show ?thesis by simp
qed

text \<open>Witness for the amended C9.\<close>

theorem parseAtoms_motif_as_read_witness:
  "\<exists>this'. parseAtoms
       (new_config (file_of
          ['' *****'', ''   1   6 C    4     0.000  1.5  -2.000E+00'',
           ''   2   1 H    2  1.0 1.0 1.0'', ''   3   6 C    4  2.0 2.0 2.0'',
           ''   4   8 O    5  3.0 3.0 3.0'', ''   5   1 H    2  4.0 4.0 4.0'', ''next''])
          \<lparr>natoms := 5\<rparr>) = Inr this'
     \<and> map (take 3) (motif this') = [[0, 3 / 2, - 2], [1, 1, 1], [2, 2, 2], [3, 3, 3], [4, 4, 4]]"
  using parseAtoms_motif_as_read [OF _ _ _ ex_atom_records,
      where this = "new_config (file_of
        ['' *****'', ''   1   6 C    4     0.000  1.5  -2.000E+00'',
         ''   2   1 H    2  1.0 1.0 1.0'', ''   3   6 C    4  2.0 2.0 2.0'',
         ''   4   8 O    5  3.0 3.0 3.0'', ''   5   1 H    2  4.0 4.0 4.0'', ''next''])
        \<lparr>natoms := 5\<rparr>" and header = "'' *****''" and rest = "[''next'']"]
  by (simp add: new_config_def)

section \<open>Claims about the atomic basis\<close>

lemma coef_loop_table:
  "list_all is_coef_line cls \<Longrightarrow> \<not> is_coef_line nl \<Longrightarrow>
   coef_loop (file_of (cls @ nl # rest)) line acc = (file_of (nl # rest), nl, acc @ map split cls)"
proof (induction cls arbitrary: line acc)
  case Nil
  then show ?case
    by (subst coef_loop.simps) (simp add: getline_def is_coef_line_def)
next
  case (Cons c cls)
  then show ?case
    by (subst coef_loop.simps) (simp add: getline_def is_coef_line_def)
qed

lemma shell_header_fields:
  assumes "shell_header h = Some (c, t)"
  shows "shell_fields h norb ty = (Some c, t)"
proof -
  obtain n1 s1 where e1: "ext_int (h, False) = (n1, s1)" by (cases "ext_int (h, False)")
  obtain t1 s2 where e2: "ext_word s1 = (t1, s2)" by (cases "ext_word s1")
  obtain n2 s3 where e3: "ext_int s2 = (n2, s3)" by (cases "ext_int s2")
  obtain t2 s4 where e4: "ext_word s3 = (t2, s4)" by (cases "ext_word s3")
  from assms e1 e2 obtain a w where n1: "n1 = Some a" and t1: "t1 = Some w"
    by (auto simp: shell_header_def split: option.splits)
  from assms e1 e2 e3 e4 n1 t1 show ?thesis
    by (auto simp: shell_header_def shell_fields_def assign_def Let_def
        split: option.splits if_splits prod.splits)
qed

lemma shell_lines_pair [simp]: "shell_lines (h, cls) = h # cls"
  by (simp add: shell_lines_def)

lemma shell_body_ok:
  assumes ok: "shell_ok (h, cls)" and nl: "\<not> is_coef_line nl"
    and f: "m_file this = file_of (h # cls @ nl # rest)"
  shows "\<exists>this' st'. shell_body this st = (this', st') \<and> m_file this' = file_of (nl # rest) \<and>
           pb_frame this this' \<and> pb_same st st' \<and> pb_norbitals st' = Some (cumulative [(h, cls)])"
proof -
  from ok obtain c t where h: "shell_header h = Some (c, t)"
    by (auto simp: shell_ok_def)
  from ok have cls: "list_all is_coef_line cls" by (simp add: shell_ok_def)
  show ?thesis
    using coef_loop_table [OF cls nl, of rest h "[]"] shell_header_fields [OF h]
    by (simp add: shell_body_def f getline_def pb_frame_def pb_same_def cumulative_def h
        Let_def)
qed

lemma shell_loop_ok:
  "list_all shell_ok shs \<Longrightarrow> \<not> is_coef_line nl \<Longrightarrow>
   m_file this = file_of (concat (map shell_lines shs) @ nl # rest) \<Longrightarrow>
   \<exists>this' st'. shell_loop (length shs) this st = (this', st') \<and>
      m_file this' = file_of (nl # rest) \<and> pb_frame this this' \<and> pb_same st st' \<and>
      pb_norbitals st' = (if shs = [] then pb_norbitals st else Some (cumulative shs))"
proof (induction shs arbitrary: this st)
  case Nil
  then show ?case by (simp add: pb_frame_def pb_same_def)
next
  case (Cons sh shs)
  obtain h cls where sh: "sh = (h, cls)" by (cases sh)
  from Cons.prems have ok: "shell_ok (h, cls)" and oks: "list_all shell_ok shs"
    by (simp_all add: sh)
  obtain nl' rest' where nx: "concat (map shell_lines shs) @ nl # rest = nl' # rest'"
    and nl': "\<not> is_coef_line nl'"
  proof (cases shs)
    case Nil
    with Cons.prems(2) that show ?thesis by simp
  next
    case (Cons sh' shs')
    with oks that show ?thesis
      by (cases sh') (simp add: shell_ok_def)
  qed
  have f: "m_file this = file_of (h # cls @ nl' # rest')"
    using Cons.prems(3) nx by (simp add: sh)
  obtain this1 st1 where b: "shell_body this st = (this1, st1)"
    and f1: "m_file this1 = file_of (nl' # rest')" and fr1: "pb_frame this this1"
    and sm1: "pb_same st st1" and n1: "pb_norbitals st1 = Some (cumulative [(h, cls)])"
    using shell_body_ok [OF ok nl' f, of st] by blast
  obtain this2 st2 where l: "shell_loop (length shs) this1 st1 = (this2, st2)"
    and f2: "m_file this2 = file_of (nl # rest)" and fr2: "pb_frame this1 this2"
    and sm2: "pb_same st1 st2"
    and n2: "pb_norbitals st2 = (if shs = [] then pb_norbitals st1 else Some (cumulative shs))"
    using Cons.IH [OF oks Cons.prems(2), of this1 st1] f1 nx by auto
  have "cumulative (sh # shs) = (if shs = [] then cumulative [(h, cls)] else cumulative shs)"
    by (simp add: cumulative_def sh)
  with b l f2 fr1 fr2 sm1 sm2 n1 n2 show ?case
    by (auto simp: pb_frame_def pb_same_def)
qed

lemma atom_body_new:
  assumes al: "basis_atom al = Some l" and new: "l \<notin> set (pb_species st)"
    and nsp: "pb_nspecies st = int nsp" "nsp < length (shellsPerSpecies this)"
      "shellsPerSpecies this ! nsp = int (length shs)"
    and shs: "shs \<noteq> []" "list_all shell_ok shs" and nl: "\<not> is_coef_line nl"
    and f: "m_file this = file_of (al # concat (map shell_lines shs) @ nl # rest)"
    and fits: "int_fits (cumulative shs - pb_totalOrbitals st)"
  shows "\<exists>this' st'. atom_body i this st = Inr (this', st') \<and>
           m_file this' = file_of (nl # rest) \<and> natoms this' = natoms this \<and>
           motif this' = motif this \<and> shellsPerSpecies this' = shellsPerSpecies this \<and>
           orbitalsPerSpecies this' = orbitalsPerSpecies this @ [cumulative shs - pb_totalOrbitals st] \<and>
           pb_totalOrbitals st' = cumulative shs \<and> pb_nspecies st' = int (nsp + 1) \<and>
           pb_species st' = pb_species st @ [l]"
proof -
  obtain natom s1 where e1: "ext_int (al, False) = (natom, s1)" by (cases "ext_int (al, False)")
  obtain s2 where e2: "ext_word s1 = (Some l, s2)"
    using al e1 by (cases "ext_word s1") (simp add: basis_atom_def)
  let ?this1 = "this\<lparr>m_file := file_of (concat (map shell_lines shs) @ nl # rest)\<rparr>"
  let ?st2 = "st\<lparr>pb_line := al, pb_chemical_species := l, pb_species := pb_species st @ [l],
                  pb_gaussianCoefficients := [], pb_shellTypes := []\<rparr>"
  obtain this3 st3 where l: "shell_loop (length shs) ?this1 ?st2 = (this3, st3)"
    and f3: "m_file this3 = file_of (nl # rest)" and fr: "pb_frame ?this1 this3"
    and sm: "pb_same ?st2 st3" and n3: "pb_norbitals st3 = Some (cumulative shs)"
    using shell_loop_ok [OF shs(2) nl, of ?this1 rest ?st2] shs(1) by auto
  show ?thesis
    using e1 e2 new nsp l f3 fr sm n3 fits
    by (simp add: atom_body_def f getline_def pb_frame_def pb_same_def)
qed

lemma atom_body_seen:
  assumes al: "basis_atom al = Some l" and seen: "l \<in> set (pb_species st)"
    and m: "i < length (motif this)" "3 < length (motif this ! i)" "0 \<le> motif this ! i ! 3"
      "nat \<lfloor>motif this ! i ! 3\<rfloor> < length (orbitalsPerSpecies this)"
    and f: "m_file this = file_of (al # rest)"
    and fits: "int_fits (pb_totalOrbitals st + orbitalsPerSpecies this ! nat \<lfloor>motif this ! i ! 3\<rfloor>)"
  shows "atom_body i this st =
     Inr (this\<lparr>m_file := file_of rest\<rparr>,
          st\<lparr>pb_line := al, pb_chemical_species := l,
             pb_totalOrbitals := pb_totalOrbitals st
               + orbitalsPerSpecies this ! nat \<lfloor>motif this ! i ! 3\<rfloor>\<rparr>)"
proof -
  obtain natom s1 where e1: "ext_int (al, False) = (natom, s1)" by (cases "ext_int (al, False)")
  obtain s2 where e2: "ext_word s1 = (Some l, s2)"
    using al e1 by (cases "ext_word s1") (simp add: basis_atom_def)
  show ?thesis
    using e1 e2 seen m fits by (simp add: atom_body_def f getline_def)
qed

text \<open>
  When the sum does not fit in an \<^verbatim>\<open>int\<close>, the atom of a species already seen makes
  \<^verbatim>\<open>totalOrbitals\<close> overflow.
\<close>

lemma atom_body_seen_overflow:
  assumes al: "basis_atom al = Some l" and seen: "l \<in> set (pb_species st)"
    and m: "i < length (motif this)" "3 < length (motif this ! i)" "0 \<le> motif this ! i ! 3"
      "nat \<lfloor>motif this ! i ! 3\<rfloor> < length (orbitalsPerSpecies this)"
    and f: "m_file this = file_of (al # rest)"
    and over: "\<not> int_fits (pb_totalOrbitals st + orbitalsPerSpecies this ! nat \<lfloor>motif this ! i ! 3\<rfloor>)"
  shows "atom_body i this st = Inl (Undefined ''totalOrbitals += ...: signed integer overflow'')"
proof -
  obtain natom s1 where e1: "ext_int (al, False) = (natom, s1)" by (cases "ext_int (al, False)")
  obtain s2 where e2: "ext_word s1 = (Some l, s2)"
    using al e1 by (cases "ext_word s1") (simp add: basis_atom_def)
  show ?thesis
    using e1 e2 seen m over by (simp add: atom_body_def f getline_def)
qed

lemma next_line_ok:
  assumes "blocks_ok mot sps i seen nsp ncnt bs" and "rest \<noteq> []" and "\<not> is_coef_line (hd rest)"
  obtains nl rest' where "concat (map block_lines bs) @ rest = nl # rest'" and "\<not> is_coef_line nl"
proof (cases bs)
  case Nil
  with assms that [of "hd rest" "tl rest"] show ?thesis by simp
next
  case (Cons b bs')
  with assms that show ?thesis
    by (cases b) (auto split: option.splits)
qed

lemma atom_loop_ok:
  "blocks_ok (motif this) (shellsPerSpecies this) i (pb_species st) nsp
     (length (orbitalsPerSpecies this)) bs \<Longrightarrow>
   pb_nspecies st = int nsp \<Longrightarrow> rest \<noteq> [] \<Longrightarrow> \<not> is_coef_line (hd rest) \<Longrightarrow>
   m_file this = file_of (concat (map block_lines bs) @ rest) \<Longrightarrow>
   counts_fit (motif this) i (pb_totalOrbitals st) (orbitalsPerSpecies this) bs \<Longrightarrow>
   \<exists>this' st'. atom_loop (length bs) i this st = Inr (this', st') \<and>
      m_file this' = file_of rest \<and>
      orbitalsPerSpecies this' =
        derived_counts (motif this) i (pb_totalOrbitals st) (orbitalsPerSpecies this) bs"
proof (induction bs arbitrary: this st i nsp)
  case Nil
  then show ?case by simp
next
  case (Cons b bs)
  show ?case
  proof (cases b)
    case (New_species al shs)
    with Cons.prems(1) obtain l where al: "basis_atom al = Some l"
      and new: "l \<notin> set (pb_species st)" and nsp: "nsp < length (shellsPerSpecies this)"
        "shellsPerSpecies this ! nsp = int (length shs)"
      and shs: "shs \<noteq> []" "list_all shell_ok shs"
      and ok': "blocks_ok (motif this) (shellsPerSpecies this) (i + 1) (pb_species st @ [l])
                  (nsp + 1) (length (orbitalsPerSpecies this) + 1) bs"
      by (auto split: option.splits)
    from Cons.prems(6) have fits: "int_fits (cumulative shs - pb_totalOrbitals st)"
      and cf: "counts_fit (motif this) (i + 1) (cumulative shs)
                 (orbitalsPerSpecies this @ [cumulative shs - pb_totalOrbitals st]) bs"
      by (simp_all add: New_species)
    obtain nl rest' where nx: "concat (map block_lines bs) @ rest = nl # rest'"
      and nl: "\<not> is_coef_line nl"
      using next_line_ok [OF ok' Cons.prems(3,4)] by blast
    have f: "m_file this = file_of (al # concat (map shell_lines shs) @ nl # rest')"
      using Cons.prems(5) nx by (simp add: New_species)
    obtain this1 st1 where b: "atom_body i this st = Inr (this1, st1)"
      and f1: "m_file this1 = file_of (nl # rest')" and fr: "natoms this1 = natoms this"
        "motif this1 = motif this" "shellsPerSpecies this1 = shellsPerSpecies this"
      and o1: "orbitalsPerSpecies this1 = orbitalsPerSpecies this @ [cumulative shs - pb_totalOrbitals st]"
      and t1: "pb_totalOrbitals st1 = cumulative shs" and n1: "pb_nspecies st1 = int (nsp + 1)"
      and s1: "pb_species st1 = pb_species st @ [l]"
      using atom_body_new [OF al new Cons.prems(2) nsp shs nl f fits, of i] by blast
    have "\<exists>this' st'. atom_loop (length bs) (i + 1) this1 st1 = Inr (this', st') \<and>
        m_file this' = file_of rest \<and>
        orbitalsPerSpecies this' =
          derived_counts (motif this1) (i + 1) (pb_totalOrbitals st1) (orbitalsPerSpecies this1) bs"
      using ok' fr o1 s1 n1 t1 f1 nx cf Cons.prems(3,4)
      by (intro Cons.IH [where nsp = "nsp + 1"]) simp_all
    with b fr o1 t1 show ?thesis by (auto simp: New_species)
  next
    case (Seen_species al)
    with Cons.prems(1) obtain l where al: "basis_atom al = Some l"
      and seen: "l \<in> set (pb_species st)"
      and m: "i < length (motif this)" "3 < length (motif this ! i)" "0 \<le> motif this ! i ! 3"
        "nat \<lfloor>motif this ! i ! 3\<rfloor> < length (orbitalsPerSpecies this)"
      and ok': "blocks_ok (motif this) (shellsPerSpecies this) (i + 1) (pb_species st) nsp
                  (length (orbitalsPerSpecies this)) bs"
      by (auto split: option.splits)
    let ?rest = "concat (map block_lines bs) @ rest"
    let ?this1 = "this\<lparr>m_file := file_of ?rest\<rparr>"
    let ?st1 = "st\<lparr>pb_line := al, pb_chemical_species := l,
                   pb_totalOrbitals := pb_totalOrbitals st
                     + orbitalsPerSpecies this ! nat \<lfloor>motif this ! i ! 3\<rfloor>\<rparr>"
    have f: "m_file this = file_of (al # ?rest)"
      using Cons.prems(5) by (simp add: Seen_species)
    from Cons.prems(6) have fits: "int_fits (pb_totalOrbitals st
          + orbitalsPerSpecies this ! nat \<lfloor>motif this ! i ! 3\<rfloor>)"
      and cf: "counts_fit (motif this) (i + 1)
                 (pb_totalOrbitals st + orbitalsPerSpecies this ! nat \<lfloor>motif this ! i ! 3\<rfloor>)
                 (orbitalsPerSpecies this) bs"
      by (simp_all add: Seen_species)
    have b: "atom_body i this st = Inr (?this1, ?st1)"
      using atom_body_seen [OF al seen m f fits] .
    have "\<exists>this' st'. atom_loop (length bs) (i + 1) ?this1 ?st1 = Inr (this', st') \<and>
        m_file this' = file_of rest \<and>
        orbitalsPerSpecies this' =
          derived_counts (motif ?this1) (i + 1) (pb_totalOrbitals ?st1) (orbitalsPerSpecies ?this1) bs"
      using ok' cf Cons.prems(2,3,4)
      by (intro Cons.IH [where nsp = nsp]) simp_all
    with b show ?thesis by (auto simp: Seen_species)
  qed
qed

lemma parseAtomicBasis_result:
  assumes f: "m_file this = file_of (h1 # h2 # h3 # concat (map block_lines bs) @ rest)"
    and n: "natoms this = int (length bs)"
    and ok: "blocks_ok (motif this) (shellsPerSpecies this) 0 [] 0
               (length (orbitalsPerSpecies this)) bs"
    and rest: "rest \<noteq> []" "\<not> is_coef_line (hd rest)"
    and fits: "counts_fit (motif this) 0 0 (orbitalsPerSpecies this) bs"
  shows "\<exists>this'. parseAtomicBasis this = Inr this' \<and> m_file this' = file_of rest \<and>
           orbitalsPerSpecies this' = derived_counts (motif this) 0 0 (orbitalsPerSpecies this) bs"
proof -
  let ?this0 = "this\<lparr>m_file := file_of (concat (map block_lines bs) @ rest)\<rparr>"
  let ?st0 = "\<lparr>pb_line = h3, pb_chemical_species = [], pb_norbitals = None,
                pb_totalOrbitals = 0, pb_nspecies = 0, pb_shellType = [], pb_shellTypes = [],
                pb_gaussianCoefficients = [], pb_species = []\<rparr>"
  have "\<exists>this' st'. atom_loop (length bs) 0 ?this0 ?st0 = Inr (this', st') \<and>
      m_file this' = file_of rest \<and>
      orbitalsPerSpecies this' =
        derived_counts (motif ?this0) 0 (pb_totalOrbitals ?st0) (orbitalsPerSpecies ?this0) bs"
    using ok rest fits by (intro atom_loop_ok [where nsp = 0]) simp_all
  then show ?thesis
    using n by (auto simp: parseAtomicBasis_def f getline_def)
qed

lemmas pb_eval = parseAtomicBasis_def atom_loop.simps atom_body_def shell_loop.simps
  shell_body_def shell_fields_def coef_loop.simps split_def ext_doubles.simps getline_def
  assign_def int_fits_def lex_defs eval_nat_numeral Let_def

lemmas basis_eval = basis_atom_def is_coef_line_def shell_ok_def shell_header_def
  shell_fields_def cumulative_def split_def ext_doubles.simps assign_def int_fits_def
  lex_defs Let_def

text \<open>
  Claim C4 fails on its example. With the file's cumulative counts 10 (first atom) and 14
  (third atom), the second atom being a duplicate of the first, the running total is
  10 + 10 = 20 when the third atom is read, and the count derived for the second species
  is 14 - 20 = -6, not 4.
\<close>

theorem parseAtomicBasis_example_10_10_14:
  "\<exists>this'. parseAtomicBasis
       (new_config (file_of
          ['' *****'', ''   ATOM  N. TYPE  EXPONENT  S COEF   P COEF   D/F/G COEF'', '' *****'',
           ''   1 C     0.000   0.000   0.000'',
           ''                                   1 S'',
           ''                                         3.047E+03 1.835E-03 0.000E+00 0.000E+00'',
           ''                                   2-  10 SP'',
           ''                                         7.868E+00-1.193E-01 6.900E-02 0.000E+00'',
           ''   2 C     1.000   0.000   0.000'',
           ''   3 H     2.000   0.000   0.000'',
           ''                                  11-  14 SP'',
           ''                                         1.873E+01 3.350E-02 0.000E+00 0.000E+00'',
           '' INFORMATION''])
          \<lparr>natoms := 3, motif := [[0, 0, 0, 0], [1, 0, 0, 0], [2, 0, 0, 1]],
           shellsPerSpecies := [2, 1]\<rparr>) = Inr this'
     \<and> orbitalsPerSpecies this' = [10, - 6]
     \<and> orbitalsPerSpecies this' \<noteq> [10, 4]"
  by (simp add: new_config_def pb_eval)

text \<open>
  Claim C4 as amended: on a well-formed basis section \<^verbatim>\<open>parseAtomicBasis\<close> appends to
  \<^verbatim>\<open>orbitalsPerSpecies\<close>, for each new species, the file's cumulative count at the end
  of its shells minus the total accumulated so far, and for an atom of a species already
  seen the total advances by the count recorded for that species (\<open>derived_counts\<close>); the
  section is read up to the line that follows it. The differences and the sums are those
  of the integers as long as they fit in an \<^verbatim>\<open>int\<close> (\<open>counts_fit\<close>); beyond that range
  the C++ arithmetic overflows and its result is not defined.
\<close>

theorem parseAtomicBasis_difference:
  assumes "m_file this = file_of (h1 # h2 # h3 # concat (map block_lines bs) @ rest)"
    and "natoms this = int (length bs)"
    and "blocks_ok (motif this) (shellsPerSpecies this) 0 [] 0
           (length (orbitalsPerSpecies this)) bs"
    and "rest \<noteq> []" and "\<not> is_coef_line (hd rest)"
    and "counts_fit (motif this) 0 0 (orbitalsPerSpecies this) bs"
  shows "\<exists>this'. parseAtomicBasis this = Inr this' \<and> m_file this' = file_of rest \<and>
           orbitalsPerSpecies this' = derived_counts (motif this) 0 0 (orbitalsPerSpecies this) bs"
  using assms by (rule parseAtomicBasis_result)

text \<open>
  Witness for the amended C4, its example: cumulative counts 10 (first atom) and 24 (third
  atom), the second atom a duplicate of the first, give the counts 10 and 4.
\<close>

theorem parseAtomicBasis_difference_witness:
  "\<exists>this'. parseAtomicBasis
       (new_config (file_of
          ['' *****'', ''   ATOM  N. TYPE  EXPONENT  S COEF   P COEF   D/F/G COEF'', '' *****'',
           ''   1 C     0.000   0.000   0.000'',
           ''                                   1 S'',
           ''                                         3.047E+03 1.835E-03 0.000E+00 0.000E+00'',
           ''                                   2-  10 SP'',
           ''                                         7.868E+00-1.193E-01 6.900E-02 0.000E+00'',
           ''   2 C     1.000   0.000   0.000'',
           ''   3 H     2.000   0.000   0.000'',
           ''                                  21-  24 SP'',
           ''                                         1.873E+01 3.350E-02 0.000E+00 0.000E+00'',
           '' INFORMATION''])
          \<lparr>natoms := 3, motif := [[0, 0, 0, 0], [1, 0, 0, 0], [2, 0, 0, 1]],
           shellsPerSpecies := [2, 1]\<rparr>) = Inr this'
     \<and> m_file this' = file_of ['' INFORMATION'']
     \<and> orbitalsPerSpecies this' = [10, 4]"
proof -
  let ?bs = "[New_species ''   1 C     0.000   0.000   0.000''
                [(''                                   1 S'',
                  [''                                         3.047E+03 1.835E-03 0.000E+00 0.000E+00'']),
                 (''                                   2-  10 SP'',
                  [''                                         7.868E+00-1.193E-01 6.900E-02 0.000E+00''])],
              Seen_species ''   2 C     1.000   0.000   0.000'',
              New_species ''   3 H     2.000   0.000   0.000''
                [(''                                  21-  24 SP'',
                  [''                                         1.873E+01 3.350E-02 0.000E+00 0.000E+00''])]]"
  let ?mot = "[[0, 0, 0, 0], [1, 0, 0, 0], [2, 0, 0, 1 :: real]]"
  have ok: "blocks_ok ?mot [2, 1] 0 [] 0 0 ?bs"
    by (simp add: basis_eval)
  have dc: "derived_counts ?mot 0 0 [] ?bs = [10, 4]"
    by (simp add: basis_eval)
  have cf: "counts_fit ?mot 0 0 [] ?bs"
    by (simp add: basis_eval)
  have nc: "\<not> is_coef_line (hd ['' INFORMATION''])"
    by (simp add: basis_eval)
  let ?rest = "['' INFORMATION'']"
  let ?cfg = "new_config (file_of
          ['' *****'', ''   ATOM  N. TYPE  EXPONENT  S COEF   P COEF   D/F/G COEF'', '' *****'',
           ''   1 C     0.000   0.000   0.000'',
           ''                                   1 S'',
           ''                                         3.047E+03 1.835E-03 0.000E+00 0.000E+00'',
           ''                                   2-  10 SP'',
           ''                                         7.868E+00-1.193E-01 6.900E-02 0.000E+00'',
           ''   2 C     1.000   0.000   0.000'',
           ''   3 H     2.000   0.000   0.000'',
           ''                                  21-  24 SP'',
           ''                                         1.873E+01 3.350E-02 0.000E+00 0.000E+00'',
           '' INFORMATION''])
          \<lparr>natoms := 3, motif := [[0, 0, 0, 0], [1, 0, 0, 0], [2, 0, 0, 1]],
           shellsPerSpecies := [2, 1]\<rparr>"
  have f: "m_file ?cfg = file_of ('' *****''
      # ''   ATOM  N. TYPE  EXPONENT  S COEF   P COEF   D/F/G COEF'' # '' *****''
      # concat (map block_lines ?bs) @ ?rest)"
    by (simp add: new_config_def)
  have n: "natoms ?cfg = int (length ?bs)"
    by (simp add: new_config_def)
  have mo: "motif ?cfg = ?mot" "orbitalsPerSpecies ?cfg = []" "shellsPerSpecies ?cfg = [2, 1]"
    by (simp_all add: new_config_def)
  have ok': "blocks_ok (motif ?cfg) (shellsPerSpecies ?cfg) 0 [] 0
               (length (orbitalsPerSpecies ?cfg)) ?bs"
    unfolding mo using ok by simp
  have ne: "?rest \<noteq> []" by simp
  have cf': "counts_fit (motif ?cfg) 0 0 (orbitalsPerSpecies ?cfg) ?bs"
    unfolding mo using cf by simp
  obtain this' where r: "parseAtomicBasis ?cfg = Inr this'" "m_file this' = file_of ?rest"
    "orbitalsPerSpecies this' = derived_counts (motif ?cfg) 0 0 (orbitalsPerSpecies ?cfg) ?bs"
    using parseAtomicBasis_difference [OF f n ok' ne nc cf'] by blast
  from r(3) have "orbitalsPerSpecies this' = [10, 4]"
    unfolding mo dc .
  with r(1,2) show ?thesis by blast
qed

section \<open>Claims about the scanner\<close>

lemma parseContent_line:
  "m_file this = file_of (line # rest) \<Longrightarrow>
   parseContent_loop ncells threshold this =
     (case scan_line ncells threshold (this\<lparr>m_file := file_of rest\<rparr>) line of
        Inl e \<Rightarrow> Inl e
      | Inr this' \<Rightarrow> parseContent_loop ncells threshold this')"
  by (subst parseContent_loop.simps) (simp add: getline_def)

lemma parseContent_eof:
  "m_file this = file_of [] \<Longrightarrow>
   parseContent_loop ncells threshold this = Inr (this\<lparr>m_file := \<lparr>slines = [], sfail = True\<rparr>\<rparr>)"
  by (subst parseContent_loop.simps) (simp add: getline_def)

text \<open>
  Claim C8: when the marker of the atom section is met while the atom count is still 0,
  the parser fails with a logic error and the parse is aborted: \<^verbatim>\<open>parseContent\<close> and
  the constructor end with the exception, so no object and no motif exist.
\<close>

theorem atoms_before_atom_count:
  assumes "natoms this = 0" and "atom_section_marker line"
    and "m_file this = file_of (line # rest)"
  shows "parseContent ncells threshold this = Inl (Logic_error ''Must parse first number of atoms'')
       \<and> CrystalDFTConfiguration ncells threshold this
           = Inl (Logic_error ''Must parse first number of atoms'')"
proof -
  have "marker_chain ncells threshold (this\<lparr>m_file := file_of rest\<rparr>) line
        = Inl (Logic_error ''Must parse first number of atoms'')"
    using assms(1,2) unfolding marker_chain_def atom_section_marker_def by simp
  then have "scan_line ncells threshold (this\<lparr>m_file := file_of rest\<rparr>) line
        = Inl (Logic_error ''Must parse first number of atoms'')"
    by (simp add: scan_line_def)
  then show ?thesis
    using parseContent_line [OF assms(3), of ncells threshold]
    by (simp add: parseContent_def CrystalDFTConfiguration_def)
qed

lemmas str_eval = contains_def

text \<open>Witness for C8: the header line of the atom table as the first line of the file.\<close>

theorem atoms_before_atom_count_witness:
  "natoms (new_config (file_of ['' ATOM N.AT.  SHELL    X(A)      Y(A)      Z(A)      EXAD       N.ELECT.'',
       '' *****'', ''   1   6 C    4     0.000  1.5  -2.000E+00''])) = 0
   \<and> atom_section_marker '' ATOM N.AT.  SHELL    X(A)      Y(A)      Z(A)      EXAD       N.ELECT.''
   \<and> parseContent 1 100 (new_config (file_of
        ['' ATOM N.AT.  SHELL    X(A)      Y(A)      Z(A)      EXAD       N.ELECT.'',
         '' *****'', ''   1   6 C    4     0.000  1.5  -2.000E+00'']))
       = Inl (Logic_error ''Must parse first number of atoms'')
   \<and> CrystalDFTConfiguration 1 100 (new_config (file_of
        ['' ATOM N.AT.  SHELL    X(A)      Y(A)      Z(A)      EXAD       N.ELECT.'',
         '' *****'', ''   1   6 C    4     0.000  1.5  -2.000E+00'']))
       = Inl (Logic_error ''Must parse first number of atoms'')"
proof -
  have m: "atom_section_marker '' ATOM N.AT.  SHELL    X(A)      Y(A)      Z(A)      EXAD       N.ELECT.''"
    by (simp add: atom_section_marker_def contains_def)
  have n: "natoms (new_config (file_of ['' ATOM N.AT.  SHELL    X(A)      Y(A)      Z(A)      EXAD       N.ELECT.'',
       '' *****'', ''   1   6 C    4     0.000  1.5  -2.000E+00''])) = 0"
    by (simp add: new_config_def)
  show ?thesis
    using atoms_before_atom_count [OF n m, of "['' *****'', ''   1   6 C    4     0.000  1.5  -2.000E+00'']" 1 100]
      m n
    by (simp add: new_config_def)
qed

section \<open>What the parsers leave of the stacks\<close>

lemma stacks_m_file [simp]: "stacks (this\<lparr>m_file := f\<rparr>) = stacks this"
  by (simp add: stacks_def)

lemma parseMatrix_body_stacks:
  "parseMatrix_body this st = Inr (Inr (this', st')) \<Longrightarrow> stacks this' = stacks this"
  "parseMatrix_body this st = Inr (Inl (m, this')) \<Longrightarrow> stacks this' = stacks this"
  by (auto simp: parseMatrix_body_def Let_def split: if_splits prod.splits sum.splits)

lemma parseMatrix_loop_stacks:
  "parseMatrix_loop this st = Inr (m, this') \<Longrightarrow> stacks this' = stacks this"
proof (induction this st rule: parseMatrix_loop.induct)
  case (1 this st)
  obtain ok line f where g: "getline (m_file this) (pm_line st) = (ok, line, f)"
    by (metis prod_cases3)
  from "1.prems" g have ok: "ok"
    by (subst (asm) parseMatrix_loop.simps) (auto split: if_splits)
  show ?case
  proof (cases "parseMatrix_body (this\<lparr>m_file := f\<rparr>) (st\<lparr>pm_line := line\<rparr>)")
    case (Inl e)
    with "1.prems" g ok show ?thesis
      by (subst (asm) parseMatrix_loop.simps) simp
  next
    case (Inr r)
    show ?thesis
    proof (cases r)
      case (Inl res)
      with Inr "1.prems" g ok have "parseMatrix_body (this\<lparr>m_file := f\<rparr>) (st\<lparr>pm_line := line\<rparr>)
          = Inr (Inl (m, this'))"
        by (subst (asm) parseMatrix_loop.simps) simp
      from parseMatrix_body_stacks(2) [OF this] show ?thesis by simp
    next
      case (Inr c)
      obtain this1 st1 where c: "c = (this1, st1)" by (cases c)
      have b: "parseMatrix_body (this\<lparr>m_file := f\<rparr>) (st\<lparr>pm_line := line\<rparr>) = Inr (Inr (this1, st1))"
        using \<open>parseMatrix_body (this\<lparr>m_file := f\<rparr>) (st\<lparr>pm_line := line\<rparr>) = Inr r\<close> Inr c by simp
      from "1.prems" g ok b have l: "parseMatrix_loop this1 st1 = Inr (m, this')"
        by (subst (asm) parseMatrix_loop.simps) simp
      have "stacks this' = stacks this1"
        using "1.IH" [OF g [symmetric] refl _ b refl refl l] ok by simp
      with parseMatrix_body_stacks(1) [OF b] show ?thesis by simp
    qed
  qed
qed

lemma parseMatrix_stacks:
  "parseMatrix this = Inr (m, this') \<Longrightarrow> stacks this' = stacks this"
  by (auto simp: parseMatrix_def split: if_splits dest: parseMatrix_loop_stacks)

lemma parseAtoms_stacks:
  "parseAtoms this = Inr this' \<Longrightarrow> stacks this' = stacks this"
  by (auto simp: parseAtoms_def Let_def stacks_def split: if_splits prod.splits sum.splits)

lemma shell_body_stacks:
  "shell_body this st = (this', st') \<Longrightarrow> stacks this' = stacks this"
  by (auto simp: shell_body_def Let_def stacks_def split: prod.splits)

lemma shell_loop_stacks:
  "shell_loop k this st = (this', st') \<Longrightarrow> stacks this' = stacks this"
proof (induction k arbitrary: this st)
  case 0
  then show ?case by simp
next
  case (Suc k)
  then obtain this1 st1 where b: "shell_body this st = (this1, st1)"
    and l: "shell_loop k this1 st1 = (this', st')"
    by (auto split: prod.splits)
  from Suc.IH [OF l] shell_body_stacks [OF b] show ?case by simp
qed

lemma atom_body_stacks:
  assumes "atom_body i this st = Inr (this', st')"
  shows "stacks this' = stacks this"
proof -
  obtain ok line f1 where g: "getline (m_file this) (pb_line st) = (ok, line, f1)"
    by (metis prod_cases3)
  obtain natom s1 where e1: "ext_int (line, False) = (natom, s1)"
    by (cases "ext_int (line, False)")
  obtain cs s2 where e2: "ext_word s1 = (cs, s2)"
    by (cases "ext_word s1")
  define sp where "sp = (case cs of None \<Rightarrow> pb_chemical_species st | Some w \<Rightarrow> w)"
  show ?thesis
  proof (cases "sp \<in> set (pb_species st)")
    case True
    with assms g e1 e2 have "this' = this\<lparr>m_file := f1\<rparr>"
      by (auto simp: atom_body_def Let_def sp_def split: if_splits)
    then show ?thesis by simp
  next
    case False
    with assms g e1 e2 obtain k st2 this3 st3 where
      l: "shell_loop k (this\<lparr>m_file := f1\<rparr>) st2 = (this3, st3)"
      and f: "stacks this' = stacks this3"
      by (auto simp: atom_body_def Let_def sp_def stacks_def
          split: if_splits prod.splits option.splits)
    from shell_loop_stacks [OF l] f show ?thesis by simp
  qed
qed

lemma atom_loop_stacks:
  "atom_loop k i this st = Inr (this', st') \<Longrightarrow> stacks this' = stacks this"
proof (induction k arbitrary: i this st)
  case 0
  then show ?case by simp
next
  case (Suc k)
  then obtain this1 st1 where b: "atom_body i this st = Inr (this1, st1)"
    and l: "atom_loop k (i + 1) this1 st1 = Inr (this', st')"
    by (auto split: sum.splits)
  from Suc.IH [OF l] atom_body_stacks [OF b] show ?case by simp
qed

lemma parseAtomicBasis_stacks:
  assumes "parseAtomicBasis this = Inr this'"
  shows "stacks this' = stacks this"
proof -
  from assms obtain k f3 st0 st where
    l: "atom_loop k 0 (this\<lparr>m_file := f3\<rparr>) st0 = Inr (this', st)"
    by (auto simp: parseAtomicBasis_def Let_def split: sum.splits prod.splits)
  from atom_loop_stacks [OF l] show ?thesis by simp
qed

lemma parseBravaisLattice_stacks:
  "parseBravaisLattice threshold this = Inr this' \<Longrightarrow> stacks this' = stacks this"
  by (auto simp: parseBravaisLattice_def extractDimension_def Let_def stacks_def
      split: sum.splits prod.splits)

lemma join_vert_length:
  "join_vert m row = Inr m' \<Longrightarrow> length m' = Suc (length m)"
  by (auto simp: join_vert_def split: if_splits)

lemma join_vert_snoc:
  "join_vert m row = Inr m' \<Longrightarrow> m' = m @ [row]"
  by (auto simp: join_vert_def split: if_splits)

lemma fock_section_stacks:
  assumes "fock_section ncells this line = Inr this'"
  shows "stacks this' = stacks this"
proof -
  from assms obtain line1 where a: "after_marker line ''FOCK MATRIX - CELL N.'' = Inr line1"
    by (auto simp: fock_section_def split: sum.splits)
  from assms a obtain cellIndex x y z where c: "cell_fields line1 = (Some cellIndex, x, y, z)"
    by (auto simp: fock_section_def split: sum.splits prod.splits option.splits)
  show ?thesis
  proof (cases "cellIndex \<le> ncells")
    case False
    with assms a c show ?thesis by (simp add: fock_section_def)
  next
    case True
    with assms a c obtain fockMatrix this1 where
      p: "parseMatrix this = Inr (fockMatrix, this1)"
      and r: "stacks this' = stacks this1"
      by (auto simp: fock_section_def stacks_def split: sum.splits prod.splits if_splits)
    from parseMatrix_stacks [OF p] r show ?thesis by simp
  qed
qed

lemma stacks_agree_cong:
  "stacks this' = stacks this \<Longrightarrow> stacks_agree this' = stacks_agree this"
  by (simp add: stacks_agree_def stacks_def)

lemma stacks_fields [simp]:
  "stacks (this\<lparr>natoms := n\<rparr>) = stacks this"
  "stacks (this\<lparr>nshells := n\<rparr>) = stacks this"
  "stacks (this\<lparr>norbitals := n\<rparr>) = stacks this"
  "stacks (this\<lparr>totalElectrons := n\<rparr>) = stacks this"
  "stacks (this\<lparr>coreElectrons := n\<rparr>) = stacks this"
  "stacks (this\<lparr>SOC_FLAG := b\<rparr>) = stacks this"
  "stacks (this\<lparr>MAGNETIC_FLAG := b\<rparr>) = stacks this"
  "stacks (this\<lparr>alpha_electrons := b\<rparr>) = stacks this"
  by (simp_all add: stacks_def)

lemma mapContent_agree:
  assumes "mapContent this = Inr this'" and "\<not> MAGNETIC_FLAG this"
  shows "info_bravaisVectors (systemInfo this') = bravaisVectors this
       \<and> info_overlap (systemInfo this') = overlapMatrices this
       \<and> stacks this' = stacks this \<and> MAGNETIC_FLAG this' = MAGNETIC_FLAG this"
proof (cases "SOC_FLAG this")
  case True
  with assms show ?thesis
    unfolding mapContent_def Let_def by (auto simp: stacks_def)
next
  case False
  with assms show ?thesis
    unfolding mapContent_def Let_def by (auto simp: stacks_def)
qed

lemma magnetic_loop_flag:
  "magnetic_loop k i this nov = Inr (this', nov') \<Longrightarrow> MAGNETIC_FLAG this' = MAGNETIC_FLAG this"
proof (induction k arbitrary: i this nov)
  case 0
  then show ?case by simp
next
  case (Suc k)
  then obtain cube nov1 where
    "magnetic_loop k (i + 1) (this\<lparr>fockMatrices := cube\<rparr>) nov1 = Inr (this', nov')"
    by (auto split: if_splits sum.splits)
  from Suc.IH [OF this] show ?case by simp
qed

text \<open>The rules that evaluate the scanner and the assembler on a given file.\<close>

lemmas scan_eval = parseContent_def parseContent_line parseContent_eof scan_line_def
  marker_chain_def overlap_section_def fock_section_def after_marker_def cell_fields_def
  cell_loop.simps join_vert_def join_slices_def cube_n_elem_def n_elem_def n_rows_def n_cols_def
  read_int_def
  contains_def SOC_STRING_def MAGNETIC_STRING_def CrystalDFTConfiguration_def mapContent_def
  to_uword_def

section \<open>Claims about rejected cells\<close>

lemma str_find_take:
  "str_find line pat = Some p \<Longrightarrow> take (length pat) (drop p line) = pat"
proof (induction line arbitrary: p)
  case Nil
  then show ?case by (simp split: if_splits)
next
  case (Cons c cs)
  show ?case
  proof (cases "take (length pat) (c # cs) = pat")
    case True
    with Cons.prems show ?thesis by simp
  next
    case False
    with Cons.prems obtain q where "str_find cs pat = Some q" "p = Suc q"
      by auto
    with Cons.IH [of q] show ?thesis by simp
  qed
qed

lemma contains_set:
  assumes "contains line pat"
  shows "set pat \<subseteq> set line"
proof -
  from assms obtain p where "str_find line pat = Some p"
    by (auto simp: contains_def)
  from str_find_take [OF this] have "set pat = set (take (length pat) (drop p line))"
    by simp
  also have "\<dots> \<subseteq> set line"
    by (meson set_take_subset set_drop_subset subset_trans)
  finally show ?thesis .
qed

lemma numeric_no_char:
  "numeric_line line \<Longrightarrow> c \<in> set pat \<Longrightarrow> \<not> numeric_char c \<Longrightarrow> \<not> contains line pat"
  using contains_set [of line pat] by (auto simp: numeric_line_def list_all_iff)

lemma numeric_unmarked:
  assumes "numeric_line line"
  shows "unmarked line"
proof -
  note n = numeric_no_char [OF assms]
  have "\<not> contains line ''DIRECT LATTICE VECTOR COMPONENTS''"
    by (rule n [where c = "CHR ''D''"]) (simp_all add: numeric_char_def)
  moreover have "\<not> contains line ''N. OF ATOMS PER CELL''"
    by (rule n [where c = "CHR ''N''"]) (simp_all add: numeric_char_def)
  moreover have "\<not> contains line ''NUMBER OF SHELLS''"
    by (rule n [where c = "CHR ''N''"]) (simp_all add: numeric_char_def)
  moreover have "\<not> contains line ''NUMBER OF AO''"
    by (rule n [where c = "CHR ''N''"]) (simp_all add: numeric_char_def)
  moreover have "\<not> contains line ''N. OF ELECTRONS PER CELL''"
    by (rule n [where c = "CHR ''N''"]) (simp_all add: numeric_char_def)
  moreover have "\<not> contains line ''CORE ELECTRONS PER CELL''"
    by (rule n [where c = "CHR ''C''"]) (simp_all add: numeric_char_def)
  moreover have "\<not> contains line ''ATOM''"
    by (rule n [where c = "CHR ''A''"]) (simp_all add: numeric_char_def)
  moreover have "\<not> contains line ''LOCAL ATOMIC FUNCTIONS BASIS SET''"
    by (rule n [where c = "CHR ''L''"]) (simp_all add: numeric_char_def)
  moreover have "\<not> contains line ''OVERLAP MATRIX''"
    by (rule n [where c = "CHR ''O''"]) (simp_all add: numeric_char_def)
  moreover have "\<not> contains line SOC_STRING"
    by (rule n [where c = "CHR ''t''"]) (simp_all add: numeric_char_def SOC_STRING_def)
  moreover have "\<not> contains line MAGNETIC_STRING"
    by (rule n [where c = "CHR ''U''"]) (simp_all add: numeric_char_def MAGNETIC_STRING_def)
  moreover have "\<not> contains line ''BETA''"
    by (rule n [where c = "CHR ''B''"]) (simp_all add: numeric_char_def)
  moreover have "\<not> contains line ''FOCK MATRIX''"
    by (rule n [where c = "CHR ''F''"]) (simp_all add: numeric_char_def)
  ultimately show ?thesis
    by (simp add: unmarked_def chain_marker_def)
qed

lemma marker_chain_rest:
  assumes "\<not> chain_marker line"
  shows "marker_chain ncells threshold this line =
     (if contains line ''OVERLAP MATRIX'' then overlap_section ncells this line
      else if contains line SOC_STRING then Inr (this\<lparr>SOC_FLAG := True\<rparr>, line)
      else if contains line MAGNETIC_STRING then Inr (this\<lparr>MAGNETIC_FLAG := True\<rparr>, line)
      else Inr (this, line))"
proof -
  from assms have n: "\<not> contains line ''DIRECT LATTICE VECTOR COMPONENTS''"
    "\<not> contains line ''N. OF ATOMS PER CELL''" "\<not> contains line ''NUMBER OF SHELLS''"
    "\<not> contains line ''NUMBER OF AO''" "\<not> contains line ''N. OF ELECTRONS PER CELL''"
    "\<not> contains line ''CORE ELECTRONS PER CELL''"
    "\<not> (contains line ''ATOM'' \<and> contains line ''SHELL'')"
    "\<not> contains line ''LOCAL ATOMIC FUNCTIONS BASIS SET''"
    by (simp_all add: chain_marker_def)
  show ?thesis
    unfolding marker_chain_def by (simp only: n if_False)
qed

lemma scan_line_unmarked:
  assumes "unmarked line"
  shows "scan_line ncells threshold this line = Inr this"
proof -
  from assms have c: "\<not> chain_marker line" and n: "\<not> contains line ''OVERLAP MATRIX''"
    "\<not> contains line SOC_STRING" "\<not> contains line MAGNETIC_STRING"
    and b: "\<not> (contains line ''BETA'' \<and> contains line ''ELECTRONS'')"
    and f: "\<not> contains line ''FOCK MATRIX''"
    by (simp_all add: unmarked_def)
  have "marker_chain ncells threshold this line = Inr (this, line)"
    unfolding marker_chain_rest [OF c] by (simp only: n if_False)
  then show ?thesis
    unfolding scan_line_def Let_def using b f by auto
qed

lemma scan_line_rejected_overlap:
  assumes "rejected_overlap ncells line"
  shows "scan_line ncells threshold this line = Inr this"
proof -
  from assms obtain line1 where a: "after_marker line ''OVERLAP MATRIX - CELL N.'' = Inr line1"
    by (auto simp: rejected_overlap_def split: sum.splits)
  obtain oc ox oy oz where f: "cell_fields line1 = (oc, ox, oy, oz)"
    by (metis prod_cases4)
  from assms a f obtain cellIndex where oc: "oc = Some cellIndex"
    by (cases oc) (simp_all add: rejected_overlap_def)
  from assms a f oc obtain x where ox: "ox = Some x"
    by (cases ox) (simp_all add: rejected_overlap_def)
  from assms a f oc ox obtain y where oy: "oy = Some y"
    by (cases oy) (simp_all add: rejected_overlap_def)
  from assms a f oc ox oy obtain z where oz: "oz = Some z"
    by (cases oz) (simp_all add: rejected_overlap_def)
  from f oc ox oy oz have c: "cell_fields line1 = (Some cellIndex, Some x, Some y, Some z)"
    by simp
  from assms a c have r: "ncells < cellIndex" "\<not> contains line1 ''FOCK MATRIX''"
      "\<not> (contains line1 ''BETA'' \<and> contains line1 ''ELECTRONS'')"
    by (simp_all add: rejected_overlap_def)
  from a c r have "overlap_section ncells this line = Inr (this, line1)"
    by (simp add: overlap_section_def)
  moreover from assms have "\<not> chain_marker line" "contains line ''OVERLAP MATRIX''"
    by (simp_all add: rejected_overlap_def)
  ultimately have "marker_chain ncells threshold this line = Inr (this, line1)"
    by (simp add: marker_chain_rest)
  then show ?thesis
    unfolding scan_line_def Let_def using r by auto
qed

lemma scan_line_rejected_fock:
  assumes "rejected_fock ncells line"
  shows "scan_line ncells threshold this line = Inr this"
proof -
  from assms obtain line1 where a: "after_marker line ''FOCK MATRIX - CELL N.'' = Inr line1"
    by (auto simp: rejected_fock_def split: sum.splits)
  obtain oc x y z where f: "cell_fields line1 = (oc, x, y, z)"
    by (metis prod_cases4)
  from assms a f obtain cellIndex where oc: "oc = Some cellIndex"
    by (cases oc) (simp_all add: rejected_fock_def)
  from f oc have c: "cell_fields line1 = (Some cellIndex, x, y, z)"
    by simp
  from assms a c have r: "ncells < cellIndex"
    by (simp add: rejected_fock_def)
  from a c r have fs: "fock_section ncells this line = Inr this"
    by (simp add: fock_section_def)
  from assms have c: "\<not> chain_marker line" and n: "\<not> contains line ''OVERLAP MATRIX''"
    "\<not> contains line SOC_STRING" "\<not> contains line MAGNETIC_STRING"
    and b: "\<not> (contains line ''BETA'' \<and> contains line ''ELECTRONS'')"
    and fm: "contains line ''FOCK MATRIX''"
    by (simp_all add: rejected_fock_def)
  have "marker_chain ncells threshold this line = Inr (this, line)"
    unfolding marker_chain_rest [OF c] by (simp only: n if_False)
  then show ?thesis
    unfolding scan_line_def Let_def using b fm fs by auto
qed

lemma parseContent_skip:
  assumes "scan_line ncells threshold (this\<lparr>m_file := file_of rest\<rparr>) line
           = Inr (this\<lparr>m_file := file_of rest\<rparr>)"
    and "m_file this = file_of (line # rest)"
  shows "parseContent_loop ncells threshold this
         = parseContent_loop ncells threshold (this\<lparr>m_file := file_of rest\<rparr>)"
  using parseContent_line [OF assms(2), of ncells threshold] assms(1) by simp

lemma parseContent_block:
  "list_all numeric_line block \<Longrightarrow> m_file this = file_of (block @ rest) \<Longrightarrow>
   parseContent_loop ncells threshold this
     = parseContent_loop ncells threshold (this\<lparr>m_file := file_of rest\<rparr>)"
proof (induction block arbitrary: this)
  case Nil
  then have "this\<lparr>m_file := file_of rest\<rparr> = this" by simp
  then show ?case by simp
next
  case (Cons line block)
  have "parseContent_loop ncells threshold this
        = parseContent_loop ncells threshold (this\<lparr>m_file := file_of (block @ rest)\<rparr>)"
    using Cons.prems
    by (intro parseContent_skip [where line = line] scan_line_unmarked numeric_unmarked) simp_all
  also have "\<dots> = parseContent_loop ncells threshold
      (this\<lparr>m_file := file_of (block @ rest)\<rparr>\<lparr>m_file := file_of rest\<rparr>)"
    using Cons.prems by (intro Cons.IH) simp_all
  finally show ?case by simp
qed

lemma parseContent_section:
  assumes "rejected_section ncells sec" and "m_file this = file_of (sec @ rest)"
  shows "parseContent_loop ncells threshold this
     = parseContent_loop ncells threshold (this\<lparr>m_file := file_of rest\<rparr>)"
proof -
  from assms(1) obtain line block where s: "sec = line # block"
    and r: "rejected_overlap ncells line \<or> rejected_fock ncells line"
    and b: "list_all numeric_line block"
    by (auto simp: rejected_section_def split: list.splits)
  from r have "\<And>t. scan_line ncells threshold t line = Inr t"
    using scan_line_rejected_overlap scan_line_rejected_fock by blast
  then have "parseContent_loop ncells threshold this
        = parseContent_loop ncells threshold (this\<lparr>m_file := file_of (block @ rest)\<rparr>)"
    using assms(2) s by (intro parseContent_skip [where line = line]) simp_all
  also have "\<dots> = parseContent_loop ncells threshold
      (this\<lparr>m_file := file_of (block @ rest)\<rparr>\<lparr>m_file := file_of rest\<rparr>)"
    using b by (intro parseContent_block) simp_all
  finally show ?thesis by simp
qed

lemma parseContent_sections:
  "list_all (rejected_section ncells) secs \<Longrightarrow> m_file this = file_of (concat secs @ rest) \<Longrightarrow>
   parseContent_loop ncells threshold this
     = parseContent_loop ncells threshold (this\<lparr>m_file := file_of rest\<rparr>)"
proof (induction secs arbitrary: this)
  case Nil
  then have "this\<lparr>m_file := file_of rest\<rparr> = this" by simp
  then show ?case by simp
next
  case (Cons sec secs)
  have "parseContent_loop ncells threshold this
        = parseContent_loop ncells threshold (this\<lparr>m_file := file_of (concat secs @ rest)\<rparr>)"
    using Cons.prems by (intro parseContent_section [where sec = sec]) simp_all
  also have "\<dots> = parseContent_loop ncells threshold
      (this\<lparr>m_file := file_of (concat secs @ rest)\<rparr>\<lparr>m_file := file_of rest\<rparr>)"
    using Cons.prems by (intro Cons.IH) simp_all
  finally show ?case by simp
qed

text \<open>
  Claim C3: sections whose cell index exceeds \<^verbatim>\<open>ncells\<close> add no slice and no
  translation vector, and their lines are consumed, so that what follows them is parsed
  as if they were not there. For any number of rejected sections at the head of the
  stream, the parse (and the constructor) gives what it gives on the rest of the stream
  alone; when nothing follows, the object is returned as it was, at the end of its
  stream. For a rejected cell \<^verbatim>\<open>parseMatrix\<close> is not called: the lines of the block are
  read one by one by the loop of \<^verbatim>\<open>parseContent\<close>, and no marker is found in them.
\<close>

theorem rejected_cells_skipped:
  assumes "list_all (rejected_section ncells) secs"
    and "m_file this = file_of (concat secs @ rest)"
  shows "parseContent ncells threshold this
           = parseContent ncells threshold (this\<lparr>m_file := file_of rest\<rparr>)
       \<and> CrystalDFTConfiguration ncells threshold this
           = CrystalDFTConfiguration ncells threshold (this\<lparr>m_file := file_of rest\<rparr>)
       \<and> (rest = [] \<longrightarrow>
            parseContent ncells threshold this
              = Inr (this\<lparr>m_file := \<lparr>slines = [], sfail = True\<rparr>\<rparr>))"
proof -
  have e: "parseContent ncells threshold this
           = parseContent ncells threshold (this\<lparr>m_file := file_of rest\<rparr>)"
    unfolding parseContent_def using assms by (rule parseContent_sections)
  moreover have "parseContent ncells threshold (this\<lparr>m_file := file_of []\<rparr>)
              = Inr (this\<lparr>m_file := \<lparr>slines = [], sfail = True\<rparr>\<rparr>)"
    using parseContent_eof [of "this\<lparr>m_file := file_of []\<rparr>" ncells threshold]
    by (simp add: parseContent_def)
  ultimately show ?thesis
    by (simp add: CrystalDFTConfiguration_def)
qed

text \<open>
  Witness for C3: with \<^verbatim>\<open>ncells = 1\<close>, three rejected sections followed by the Fock
  section of cell 1, whose matrix is the only slice stored.
\<close>

theorem rejected_cells_skipped_witness:
  "list_all (rejected_section 1) ex_rejected
   \<and> parseContent 1 100 (ex_object (concat ex_rejected @ ex_accepted))
       = parseContent 1 100 (ex_object ex_accepted)
   \<and> (\<exists>this'. parseContent 1 100 (ex_object (concat ex_rejected @ ex_accepted)) = Inr this'
         \<and> fockMatrices this' = [[[- 1 / 2]]] \<and> overlapMatrices this' = []
         \<and> bravaisVectors this' = [])
   \<and> parseContent 1 100 (ex_object (concat ex_rejected))
       = Inr (ex_object (concat ex_rejected)\<lparr>m_file := \<lparr>slines = [], sfail = True\<rparr>\<rparr>)"
proof -
  have r: "list_all (rejected_section 1) ex_rejected"
    by (simp add: ex_rejected_def rejected_section_def rejected_overlap_def rejected_fock_def
        chain_marker_def numeric_line_def numeric_char_def contains_def after_marker_def
        cell_fields_def SOC_STRING_def MAGNETIC_STRING_def lex_defs Let_def)
  have m: "m_file (ex_object (concat ex_rejected @ ex_accepted))
           = file_of (concat ex_rejected @ ex_accepted)"
    and m0: "m_file (ex_object (concat ex_rejected)) = file_of (concat ex_rejected @ [])"
    by (simp_all add: ex_object_def new_config_def)
  have o: "ex_object (concat ex_rejected @ ex_accepted)\<lparr>m_file := file_of ex_accepted\<rparr>
           = ex_object ex_accepted"
    by (simp add: ex_object_def new_config_def)
  have "\<exists>this'. parseContent 1 100 (ex_object ex_accepted) = Inr this'
         \<and> fockMatrices this' = [[[- 1 / 2]]] \<and> overlapMatrices this' = []
         \<and> bravaisVectors this' = []"
    by (simp add: ex_object_def ex_accepted_def new_config_def scan_eval pm_eval
        eval_nat_numeral Let_def complex_eq_iff)
  then have x: "\<exists>this'. parseContent 1 100 (ex_object (concat ex_rejected @ ex_accepted)) = Inr this'
         \<and> fockMatrices this' = [[[- 1 / 2]]] \<and> overlapMatrices this' = []
         \<and> bravaisVectors this' = []"
    using rejected_cells_skipped [OF r m, of 100] o by simp
  have e: "parseContent 1 100 (ex_object (concat ex_rejected @ ex_accepted))
       = parseContent 1 100 (ex_object ex_accepted)"
    using rejected_cells_skipped [OF r m, of 100] o by simp
  have z: "parseContent 1 100 (ex_object (concat ex_rejected))
       = Inr (ex_object (concat ex_rejected)\<lparr>m_file := \<lparr>slines = [], sfail = True\<rparr>\<rparr>)"
    using rejected_cells_skipped [OF r m0, of 100] by blast
  from r e x z show ?thesis by blast
qed

section \<open>Claims about the assembler\<close>

lemma nth_concat_uniform:
  "list_all (\<lambda>x. length x = n) xss \<Longrightarrow> i < length xss \<Longrightarrow> k < n \<Longrightarrow>
   concat xss ! (i * n + k) = xss ! i ! k"
proof (induction xss arbitrary: i)
  case Nil
  then show ?case by simp
next
  case (Cons xs xss)
  show ?case
  proof (cases i)
    case 0
    with Cons.prems show ?thesis by (simp add: nth_append)
  next
    case (Suc j)
    with Cons.prems have "concat xss ! (j * n + k) = xss ! j ! k"
      by (intro Cons.IH) simp_all
    with Suc Cons.prems show ?thesis by (simp add: nth_append)
  qed
qed

lemma length_concat_uniform:
  "list_all (\<lambda>x. length x = n) xss \<Longrightarrow> length (concat xss) = length xss * n"
  by (induction xss) simp_all

lemma kron_krow: "kron A B = concat (map (\<lambda>ra. map (krow ra) B) A)"
  unfolding kron_def krow_def [abs_def] by simp

lemma length_krow: "length (krow ra rb) = length ra * length rb"
  unfolding krow_def by (subst length_concat_uniform [where n = "length rb"]) (simp_all add: list_all_iff)

lemma krow_nth:
  "j < length ra \<Longrightarrow> t < length rb \<Longrightarrow> krow ra rb ! (j * length rb + t) = ra ! j * rb ! t"
  unfolding krow_def
  by (subst nth_concat_uniform [where n = "length rb"]) (simp_all add: list_all_iff)

lemma length_kron: "length (kron A B) = length A * length B"
  unfolding kron_krow
  by (subst length_concat_uniform [where n = "length B"]) (simp_all add: list_all_iff)

lemma kron_row:
  "i < length A \<Longrightarrow> s < length B \<Longrightarrow> kron A B ! (i * length B + s) = krow (A ! i) (B ! s)"
  unfolding kron_krow
  by (subst nth_concat_uniform [where n = "length B"]) (simp_all add: list_all_iff)

lemma kron_nth:
  assumes "i < length A" "s < length B" "j < length (A ! i)" "t < length (B ! s)"
  shows "kron A B ! (i * length B + s) ! (j * length (B ! s) + t) = A ! i ! j * B ! s ! t"
  using assms by (simp add: kron_row krow_nth)

lemma kron_rows_length:
  assumes "square d A" "square 2 B"
  shows "list_all (\<lambda>r. length r = d * 2) (kron A B)"
proof -
  have "\<And>r. r \<in> set (kron A B) \<Longrightarrow> length r = d * 2"
  proof -
    fix r assume "r \<in> set (kron A B)"
    then obtain ra rb where "ra \<in> set A" "rb \<in> set B" "r = krow ra rb"
      by (auto simp: kron_krow)
    with assms show "length r = d * 2"
      by (simp add: length_krow square_def list_all_iff)
  qed
  then show ?thesis by (simp add: list_all_iff)
qed

lemma square_kron:
  assumes "square d A" "square 2 B"
  shows "square (2 * d) (kron A B)"
  using kron_rows_length [OF assms] assms
  by (simp add: square_def length_kron mult.commute)

lemma square_blocks [simp]: "square 2 spinUpBlock" "square 2 spinDownBlock" "square 2 eye2"
  by (simp_all add: square_def spinUpBlock_def spinDownBlock_def eye2_def)

lemma length_blocks [simp]: "length spinUpBlock = 2" "length spinDownBlock = 2" "length eye2 = 2"
  by (simp_all add: spinUpBlock_def spinDownBlock_def eye2_def)

lemma square_dims:
  assumes "square n M" "0 < n"
  shows "n_rows M = n" "n_cols M = n" "n_elem M = n * n"
proof -
  from assms obtain r rs where "M = r # rs" by (cases M) (auto simp: square_def)
  with assms show "n_rows M = n" "n_cols M = n" "n_elem M = n * n"
    by (simp_all add: n_elem_def n_rows_def n_cols_def square_def)
qed

lemma square_nth: "square d M \<Longrightarrow> i < d \<Longrightarrow> length (M ! i) = d"
  by (simp add: square_def list_all_length)

lemma square_spin_sum:
  assumes "square d A" "square d B"
  shows "square (2 * d) (spin_sum A B)"
proof -
  note a = square_kron [OF assms(1) square_blocks(1)] and b = square_kron [OF assms(2) square_blocks(2)]
  have l: "length (spin_sum A B) = 2 * d"
    using a b by (simp add: spin_sum_def square_def)
  moreover have "\<And>i. i < 2 * d \<Longrightarrow> length (spin_sum A B ! i) = 2 * d"
    using a b by (simp add: spin_sum_def square_def list_all_length)
  ultimately show ?thesis by (simp add: square_def list_all_length)
qed

lemma spin_sum_nth:
  assumes "square d A" "square d B" "i < d" "j < d" "s < 2" "t < 2"
  shows "spin_sum A B ! (i * 2 + s) ! (j * 2 + t) =
     (if s = 0 \<and> t = 0 then A ! i ! j else if s = 1 \<and> t = 1 then B ! i ! j else 0)"
proof -
  note a = square_kron [OF assms(1) square_blocks(1)] and b = square_kron [OF assms(2) square_blocks(2)]
  have r: "i * 2 + s < 2 * d" and c: "j * 2 + t < 2 * d"
    using assms by simp_all
  have "spin_sum A B ! (i * 2 + s) ! (j * 2 + t)
      = kron A spinUpBlock ! (i * 2 + s) ! (j * 2 + t) + kron B spinDownBlock ! (i * 2 + s) ! (j * 2 + t)"
    using a b r c square_nth [OF a r] square_nth [OF b r] by (simp add: spin_sum_def square_def)
  also have "kron A spinUpBlock ! (i * 2 + s) ! (j * 2 + t) = A ! i ! j * spinUpBlock ! s ! t"
    using kron_nth [of i A s spinUpBlock j t] assms square_nth [OF assms(1), of i]
      square_nth [OF square_blocks(1), of s]
    by (simp add: square_def)
  also have "kron B spinDownBlock ! (i * 2 + s) ! (j * 2 + t) = B ! i ! j * spinDownBlock ! s ! t"
    using kron_nth [of i B s spinDownBlock j t] assms square_nth [OF assms(2), of i]
      square_nth [OF square_blocks(2), of s]
    by (simp add: square_def)
  finally have e: "spin_sum A B ! (i * 2 + s) ! (j * 2 + t)
      = A ! i ! j * spinUpBlock ! s ! t + B ! i ! j * spinDownBlock ! s ! t" .
  from assms(5,6) have "(s = 0 \<or> s = 1) \<and> (t = 0 \<or> t = 1)" by auto
  then show ?thesis
    unfolding e by (auto simp: spinUpBlock_def spinDownBlock_def)
qed

lemma kron_eye2_nth:
  assumes "square d S" "i < d" "j < d" "s < 2" "t < 2"
  shows "kron S eye2 ! (i * 2 + s) ! (j * 2 + t) = (if s = t then S ! i ! j else 0)"
proof -
  have e: "kron S eye2 ! (i * 2 + s) ! (j * 2 + t) = S ! i ! j * eye2 ! s ! t"
    using kron_nth [of i S s eye2 j t] assms square_nth [OF assms(1), of i]
      square_nth [OF square_blocks(3), of s]
    by (simp add: square_def)
  from assms(4,5) have "(s = 0 \<or> s = 1) \<and> (t = 0 \<or> t = 1)" by auto
  then show ?thesis
    unfolding e by (auto simp: eye2_def)
qed

lemma block_diag_nth:
  assumes "square d A" "square d B" "0 < d" "i < d" "j < d" "s < 2" "t < 2"
  shows "block_diag A B ! (s * d + i) ! (t * d + j) =
     (if s = 0 \<and> t = 0 then A ! i ! j else if s = 1 \<and> t = 1 then B ! i ! j else 0)"
proof -
  from assms(6,7) have st: "(s = 0 \<or> s = 1) \<and> (t = 0 \<or> t = 1)" by auto
  have la: "length A = d" and lb: "length B = d"
    using assms by (simp_all add: square_def)
  note ra = square_nth [OF assms(1,4)] and rb = square_nth [OF assms(2,4)]
  note da = square_dims [OF assms(1,3)] and db = square_dims [OF assms(2,3)]
  from st show ?thesis
    using assms(4,5) la lb ra rb da(2) db(2)
    by (auto simp: block_diag_def nth_append)
qed

lemma spin_sum_block_diag:
  assumes "square d A" "square d B" "0 < d" "r < 2 * d" "c < 2 * d"
  shows "spin_sum A B ! r ! c = block_diag A B ! spin_index d r ! spin_index d c"
proof -
  have r: "r = (r div 2) * 2 + r mod 2" and c: "c = (c div 2) * 2 + c mod 2" by simp_all
  have b: "r div 2 < d" "c div 2 < d" "r mod 2 < 2" "c mod 2 < 2"
    using assms(4,5) by simp_all
  have "spin_sum A B ! r ! c = spin_sum A B ! ((r div 2) * 2 + r mod 2) ! ((c div 2) * 2 + c mod 2)"
    using r c by simp
  also have "\<dots> = block_diag A B ! ((r mod 2) * d + r div 2) ! ((c mod 2) * d + c div 2)"
    unfolding spin_sum_nth [OF assms(1,2) b] block_diag_nth [OF assms(1,2,3) b] ..
  finally show ?thesis by (simp add: spin_index_def)
qed

lemma mat_add_spin:
  assumes "square d A" "square d B" "0 < d"
  shows "mat_add (kron A spinUpBlock) (kron B spinDownBlock) = Inr (spin_sum A B)"
proof -
  note a = square_kron [OF assms(1) square_blocks(1)] and b = square_kron [OF assms(2) square_blocks(2)]
  from assms(3) have "0 < 2 * d" by simp
  from square_dims [OF a this] square_dims [OF b this] show ?thesis
    by (simp add: mat_add_def spin_sum_def)
qed

lemma join_slices_square:
  assumes "0 < n" "list_all (square n) cube" "square n m"
  shows "join_slices cube m = Inr (cube @ [m])"
proof (cases cube)
  case Nil
  then show ?thesis
    by (simp add: join_slices_def cube_n_elem_def)
next
  case (Cons c cs)
  with assms(2) have "square n c" by simp
  from square_dims [OF this assms(1)] square_dims [OF assms(3,1)] assms(1) Cons show ?thesis
    by (simp add: join_slices_def cube_n_elem_def)
qed

lemma take_Suc_drop:
  "i < length xs \<Longrightarrow> take (Suc k) (drop i xs) = xs ! i # take k (drop (Suc i) xs)"
  by (simp add: Cons_nth_drop_Suc [symmetric])

lemma magnetic_loop_result:
  assumes "0 < d" "list_all (square d) (alphaMatrices this)"
    "list_all (square d) (betaMatrices this)" "list_all (square d) (overlapMatrices this)"
    "i + k \<le> length (alphaMatrices this)" "i + k \<le> length (betaMatrices this)"
    "i + k \<le> length (overlapMatrices this)"
    "list_all (square (2 * d)) (fockMatrices this)" "list_all (square (2 * d)) nov"
  shows "magnetic_loop k i this nov =
     Inr (this\<lparr>fockMatrices := fockMatrices this @
              map2 spin_sum (take k (drop i (alphaMatrices this))) (take k (drop i (betaMatrices this)))\<rparr>,
          nov @ map (\<lambda>S. kron S eye2) (take k (drop i (overlapMatrices this))))"
  using assms
proof (induction k arbitrary: i this nov)
  case 0
  then show ?case by simp
next
  case (Suc k)
  let ?A = "alphaMatrices this ! i" and ?B = "betaMatrices this ! i"
  let ?S = "overlapMatrices this ! i"
  from Suc.prems have i: "i < length (alphaMatrices this)" "i < length (betaMatrices this)"
    "i < length (overlapMatrices this)" by simp_all
  with Suc.prems have sq: "square d ?A" "square d ?B" "square d ?S"
    by (simp_all add: list_all_length)
  from \<open>0 < d\<close> have d2: "0 < 2 * d" by simp
  note m = mat_add_spin [OF sq(1,2) \<open>0 < d\<close>]
  note t = square_spin_sum [OF sq(1,2)]
  note j1 = join_slices_square [OF d2 Suc.prems(8) t]
  note o = square_kron [OF sq(3) square_blocks(3)]
  note j2 = join_slices_square [OF d2 Suc.prems(9) o]
  let ?this1 = "this\<lparr>fockMatrices := fockMatrices this @ [spin_sum ?A ?B]\<rparr>"
  have "magnetic_loop (Suc k) i this nov = magnetic_loop k (i + 1) ?this1 (nov @ [kron ?S eye2])"
    using i m j1 j2 by simp
  also have "\<dots> = Inr (?this1\<lparr>fockMatrices := fockMatrices ?this1 @
              map2 spin_sum (take k (drop (i + 1) (alphaMatrices ?this1)))
                (take k (drop (i + 1) (betaMatrices ?this1)))\<rparr>,
          (nov @ [kron ?S eye2]) @ map (\<lambda>S. kron S eye2) (take k (drop (i + 1) (overlapMatrices ?this1))))"
    using Suc.prems t o by (intro Suc.IH) simp_all
  finally show ?case
    using i by (simp add: take_Suc_drop)
qed

lemma uword_double_count:
  "0 \<le> c \<Longrightarrow> c < 2 ^ 31 \<Longrightarrow> uword_double (to_uword c) = 2 * nat c"
proof -
  assume a: "0 \<le> c" "c < 2 ^ 31"
  then have "c mod 2 ^ 64 = c" by simp
  then have "to_uword c = nat c" by (simp add: to_uword_def)
  moreover from a have "2 * nat c < 2 ^ 64" by simp
  ultimately show ?thesis by (simp add: uword_double_def)
qed

lemma mapContent_magnetic:
  assumes "MAGNETIC_FLAG this" and "\<not> SOC_FLAG this" and "0 < d"
    and "list_all (square d) (alphaMatrices this)" and "list_all (square d) (betaMatrices this)"
    and "list_all (square d) (overlapMatrices this)"
    and "length (betaMatrices this) = length (alphaMatrices this)"
    and "length (overlapMatrices this) = length (alphaMatrices this)"
    and "fockMatrices this = []"
  shows "\<exists>this'. mapContent this = Inr this' \<and>
     info_hamiltonian (systemInfo this') = map2 spin_sum (alphaMatrices this) (betaMatrices this) \<and>
     info_overlap (systemInfo this') = map (\<lambda>S. kron S eye2) (overlapMatrices this) \<and>
     info_filling (systemInfo this') = 2 * (real_of_int (totalElectrons this) / 2) \<and>
     info_norbitals (systemInfo this') = map (\<lambda>c. uword_double (to_uword c)) (orbitalsPerSpecies this)"
proof -
  have "magnetic_loop (length (alphaMatrices this)) 0 this [] =
     Inr (this\<lparr>fockMatrices := fockMatrices this @
              map2 spin_sum (take (length (alphaMatrices this)) (drop 0 (alphaMatrices this)))
                (take (length (alphaMatrices this)) (drop 0 (betaMatrices this)))\<rparr>,
          [] @ map (\<lambda>S. kron S eye2) (take (length (alphaMatrices this)) (drop 0 (overlapMatrices this))))"
    using assms by (intro magnetic_loop_result [where d = d]) simp_all
  with assms show ?thesis
    by (simp add: mapContent_def Let_def)
qed

text \<open>
  Claim C5: the magnetic assembly. With the magnetic flag set (and the spin-orbit flag,
  which \<^verbatim>\<open>mapContent\<close> tests first, not set), alpha, beta and overlap stacks of the same
  number of cells, all slices of dimension \<open>d > 0\<close>, and no Fock slice stored before:
  \<^verbatim>\<open>mapContent\<close> succeeds; the Hamiltonian slice of every cell is
  \<^verbatim>\<open>kron(A, spinUpBlock) + kron(B, spinDownBlock)\<close>, of dimension \<open>2 * d\<close>, and its entry at
  \<open>(r, c)\<close> is the entry of the block-diagonal matrix of \<open>A\<close> and \<open>B\<close> at the indices
  that the spin order gives to \<open>r\<close> and \<open>c\<close>; every overlap slice \<open>S\<close> becomes
  \<^verbatim>\<open>kron(S, eye(2, 2))\<close>; the filling is twice half the number of electrons; and every
  orbital count (between 0 and the largest \<^verbatim>\<open>int\<close>) is doubled.
\<close>

theorem magnetic_assembly:
  assumes "MAGNETIC_FLAG this" and "\<not> SOC_FLAG this" and "0 < d"
    and "list_all (square d) (alphaMatrices this)" and "list_all (square d) (betaMatrices this)"
    and "list_all (square d) (overlapMatrices this)"
    and "length (betaMatrices this) = length (alphaMatrices this)"
    and "length (overlapMatrices this) = length (alphaMatrices this)"
    and "fockMatrices this = []"
    and "list_all (\<lambda>c. 0 \<le> c \<and> c < 2 ^ 31) (orbitalsPerSpecies this)"
  shows "\<exists>this'. mapContent this = Inr this' \<and>
     info_hamiltonian (systemInfo this') = map2 spin_sum (alphaMatrices this) (betaMatrices this) \<and>
     list_all (square (2 * d)) (info_hamiltonian (systemInfo this')) \<and>
     (\<forall>i < length (alphaMatrices this). \<forall>r < 2 * d. \<forall>c < 2 * d.
        info_hamiltonian (systemInfo this') ! i ! r ! c
          = block_diag (alphaMatrices this ! i) (betaMatrices this ! i)
              ! spin_index d r ! spin_index d c) \<and>
     info_overlap (systemInfo this') = map (\<lambda>S. kron S eye2) (overlapMatrices this) \<and>
     list_all (square (2 * d)) (info_overlap (systemInfo this')) \<and>
     info_filling (systemInfo this') = 2 * (real_of_int (totalElectrons this) / 2) \<and>
     info_norbitals (systemInfo this') = map (\<lambda>c. 2 * nat c) (orbitalsPerSpecies this)"
proof -
  from mapContent_magnetic [OF assms(1-9)] obtain this' where
    m: "mapContent this = Inr this'"
    and h: "info_hamiltonian (systemInfo this') = map2 spin_sum (alphaMatrices this) (betaMatrices this)"
    and o: "info_overlap (systemInfo this') = map (\<lambda>S. kron S eye2) (overlapMatrices this)"
    and f: "info_filling (systemInfo this') = 2 * (real_of_int (totalElectrons this) / 2)"
    and n: "info_norbitals (systemInfo this') = map (\<lambda>c. uword_double (to_uword c)) (orbitalsPerSpecies this)"
    by blast
  have sq: "\<And>i. i < length (alphaMatrices this) \<Longrightarrow>
      square d (alphaMatrices this ! i) \<and> square d (betaMatrices this ! i)"
    using assms(4,5,7) by (simp add: list_all_length)
  have hs: "list_all (square (2 * d)) (info_hamiltonian (systemInfo this'))"
    unfolding h using sq assms(7) by (simp add: list_all_length square_spin_sum)
  have he: "\<forall>i < length (alphaMatrices this). \<forall>r < 2 * d. \<forall>c < 2 * d.
        info_hamiltonian (systemInfo this') ! i ! r ! c
          = block_diag (alphaMatrices this ! i) (betaMatrices this ! i)
              ! spin_index d r ! spin_index d c"
    unfolding h using sq assms(3,7) by (simp add: spin_sum_block_diag)
  have os: "list_all (square (2 * d)) (info_overlap (systemInfo this'))"
    unfolding o using assms(6) by (simp add: list_all_length square_kron)
  have "map (\<lambda>c. uword_double (to_uword c)) (orbitalsPerSpecies this)
        = map (\<lambda>c. 2 * nat c) (orbitalsPerSpecies this)"
    using assms(10) by (intro map_cong refl uword_double_count) (simp_all add: list_all_iff)
  with n have n': "info_norbitals (systemInfo this') = map (\<lambda>c. 2 * nat c) (orbitalsPerSpecies this)"
    by simp
  from m h hs he o os f n' show ?thesis by blast
qed

text \<open>
  Witness for C5: one cell with \<open>A\<close> of rows (1, 2), (3, 4) and \<open>B\<close> of rows (5, 6),
  (7, 8). The slice interleaves the two spins; its entry (1, 3) is the entry (2, 3) of
  the block-diagonal matrix.
\<close>

theorem magnetic_assembly_witness:
  "MAGNETIC_FLAG ex_magnetic \<and> \<not> SOC_FLAG ex_magnetic
   \<and> list_all (square 2) (alphaMatrices ex_magnetic)
   \<and> list_all (square 2) (betaMatrices ex_magnetic)
   \<and> list_all (square 2) (overlapMatrices ex_magnetic)
   \<and> (\<exists>this'. mapContent ex_magnetic = Inr this'
        \<and> info_hamiltonian (systemInfo this')
            = [[[1, 0, 2, 0], [0, 5, 0, 6], [3, 0, 4, 0], [0, 7, 0, 8]]]
        \<and> block_diag [[1, 2], [3, 4]] [[5, 6], [7, 8]]
            = [[1, 2, 0, 0], [3, 4, 0, 0], [0, 0, 5, 6], [0, 0, 7, 8]]
        \<and> map (spin_index 2) [0, 1, 2, 3] = [0, 2, 1, 3]
        \<and> info_hamiltonian (systemInfo this') ! 0 ! 1 ! 3
            = block_diag [[1, 2], [3, 4]] [[5, 6], [7, 8]] ! 2 ! 3
        \<and> info_overlap (systemInfo this')
            = [[[1, 0, 9, 0], [0, 1, 0, 9], [9, 0, 1, 0], [0, 9, 0, 1]]]
        \<and> info_filling (systemInfo this') = 3
        \<and> info_norbitals (systemInfo this') = [4])"
proof -
  have f: "MAGNETIC_FLAG ex_magnetic" "\<not> SOC_FLAG ex_magnetic"
    "length (betaMatrices ex_magnetic) = length (alphaMatrices ex_magnetic)"
    "length (overlapMatrices ex_magnetic) = length (alphaMatrices ex_magnetic)"
    "fockMatrices ex_magnetic = []"
    "list_all (\<lambda>c. 0 \<le> c \<and> c < 2 ^ 31) (orbitalsPerSpecies ex_magnetic)"
    by (simp_all add: ex_magnetic_def new_config_def)
  have s: "list_all (square 2) (alphaMatrices ex_magnetic)"
    "list_all (square 2) (betaMatrices ex_magnetic)"
    "list_all (square 2) (overlapMatrices ex_magnetic)"
    by (simp_all add: ex_magnetic_def square_def)
  have d: "0 < (2::nat)" by simp
  from magnetic_assembly [OF f(1,2) d s f(3-6)] obtain this' where
    m: "mapContent ex_magnetic = Inr this'"
    and h: "info_hamiltonian (systemInfo this')
            = map2 spin_sum (alphaMatrices ex_magnetic) (betaMatrices ex_magnetic)"
    and e: "\<forall>i < length (alphaMatrices ex_magnetic). \<forall>r < 2 * 2. \<forall>c < 2 * 2.
        info_hamiltonian (systemInfo this') ! i ! r ! c
          = block_diag (alphaMatrices ex_magnetic ! i) (betaMatrices ex_magnetic ! i)
              ! spin_index 2 r ! spin_index 2 c"
    and o: "info_overlap (systemInfo this') = map (\<lambda>S. kron S eye2) (overlapMatrices ex_magnetic)"
    and fi: "info_filling (systemInfo this') = 2 * (real_of_int (totalElectrons ex_magnetic) / 2)"
    and n: "info_norbitals (systemInfo this') = map (\<lambda>c. 2 * nat c) (orbitalsPerSpecies ex_magnetic)"
    by blast
  have h': "info_hamiltonian (systemInfo this')
            = [[[1, 0, 2, 0], [0, 5, 0, 6], [3, 0, 4, 0], [0, 7, 0, 8]]]"
    unfolding h by (simp add: ex_magnetic_def spin_sum_def kron_def spinUpBlock_def spinDownBlock_def)
  have o': "info_overlap (systemInfo this')
            = [[[1, 0, 9, 0], [0, 1, 0, 9], [9, 0, 1, 0], [0, 9, 0, 1]]]"
    unfolding o by (simp add: ex_magnetic_def kron_def eye2_def)
  have b: "block_diag [[1, 2], [3, 4]] [[5, 6], [7, 8]]
            = [[1, 2, 0, 0], [3, 4, 0, 0], [0, 0, 5, 6], [0, 0, 7, 8]]"
    by (simp add: block_diag_def n_cols_def)
  have x: "map (spin_index 2) [0, 1, 2, 3] = [0, 2, 1, 3]"
    by (simp add: spin_index_def)
  have "info_hamiltonian (systemInfo this') ! 0 ! 1 ! 3
          = block_diag (alphaMatrices ex_magnetic ! 0) (betaMatrices ex_magnetic ! 0)
              ! spin_index 2 1 ! spin_index 2 3"
    using e by (simp add: ex_magnetic_def)
  then have y: "info_hamiltonian (systemInfo this') ! 0 ! 1 ! 3
            = block_diag [[1, 2], [3, 4]] [[5, 6], [7, 8]] ! 2 ! 3"
    by (simp add: ex_magnetic_def spin_index_def)
  have fi': "info_filling (systemInfo this') = 3"
    unfolding fi by (simp add: ex_magnetic_def)
  have n': "info_norbitals (systemInfo this') = [4]"
    unfolding n by (simp add: ex_magnetic_def)
  have "\<exists>this'. mapContent ex_magnetic = Inr this'
        \<and> info_hamiltonian (systemInfo this')
            = [[[1, 0, 2, 0], [0, 5, 0, 6], [3, 0, 4, 0], [0, 7, 0, 8]]]
        \<and> block_diag [[1, 2], [3, 4]] [[5, 6], [7, 8]]
            = [[1, 2, 0, 0], [3, 4, 0, 0], [0, 0, 5, 6], [0, 0, 7, 8]]
        \<and> map (spin_index 2) [0, 1, 2, 3] = [0, 2, 1, 3]
        \<and> info_hamiltonian (systemInfo this') ! 0 ! 1 ! 3
            = block_diag [[1, 2], [3, 4]] [[5, 6], [7, 8]] ! 2 ! 3
        \<and> info_overlap (systemInfo this')
            = [[[1, 0, 9, 0], [0, 1, 0, 9], [9, 0, 1, 0], [0, 9, 0, 1]]]
        \<and> info_filling (systemInfo this') = 3
        \<and> info_norbitals (systemInfo this') = [4]"
    by (rule exI [of _ this'], intro conjI) (fact m h' b x y o' fi' n')+
  with f(1,2) s show ?thesis by (intro conjI)
qed

section \<open>The size of a parsed matrix\<close>

lemma square_zeros: "square n (zeros_cx n n)"
  by (simp add: square_def zeros_cx_def list_all_iff)

lemma set_elem_square:
  "set_elem m r c v = Inr m' \<Longrightarrow> square n m \<Longrightarrow> square n m'"
  by (auto simp: set_elem_def square_def list_all_length nth_list_update split: if_splits)

lemma scatter_square:
  "scatter colIndices rowIndex coefs i colIndex m = Inr (colIndex', m') \<Longrightarrow> square n m \<Longrightarrow>
   square n m'"
proof (induction coefs arbitrary: i colIndex m)
  case Nil
  then show ?case by simp
next
  case (Cons coef coefs)
  from Cons.prems(1) obtain m1 where
    s: "set_elem m (rowIndex - 1) (colIndices ! i - 1) (complex_of_real coef) = Inr m1"
    and r: "scatter colIndices rowIndex coefs (i + 1) (colIndices ! i) m1 = Inr (colIndex', m')"
    by (auto split: if_splits sum.splits)
  from Cons.IH [OF r set_elem_square [OF s Cons.prems(2)]] show ?case .
qed

lemma parseMatrix_body_square:
  assumes "square n (pm_matrix st)"
  shows "parseMatrix_body this st = Inr (Inr (this', st')) \<Longrightarrow> square n (pm_matrix st')"
    and "parseMatrix_body this st = Inr (Inl (m, this')) \<Longrightarrow> square n m"
  using assms
  by (auto simp: parseMatrix_body_def Let_def split: if_splits prod.splits sum.splits
      dest: scatter_square)

lemma parseMatrix_loop_square:
  "parseMatrix_loop this st = Inr (m, this') \<Longrightarrow> square n (pm_matrix st) \<Longrightarrow> square n m"
proof (induction this st rule: parseMatrix_loop.induct)
  case (1 this st)
  obtain ok line f where g: "getline (m_file this) (pm_line st) = (ok, line, f)"
    by (metis prod_cases3)
  from "1.prems"(1) g have ok: "ok"
    by (subst (asm) parseMatrix_loop.simps) (auto split: if_splits)
  have q: "square n (pm_matrix (st\<lparr>pm_line := line\<rparr>))"
    using "1.prems"(2) by simp
  show ?case
  proof (cases "parseMatrix_body (this\<lparr>m_file := f\<rparr>) (st\<lparr>pm_line := line\<rparr>)")
    case (Inl e)
    with "1.prems"(1) g ok show ?thesis
      by (subst (asm) parseMatrix_loop.simps) simp
  next
    case (Inr r)
    show ?thesis
    proof (cases r)
      case (Inl res)
      with Inr "1.prems"(1) g ok have "parseMatrix_body (this\<lparr>m_file := f\<rparr>) (st\<lparr>pm_line := line\<rparr>)
          = Inr (Inl (m, this'))"
        by (subst (asm) parseMatrix_loop.simps) simp
      from parseMatrix_body_square(2) [OF q this] show ?thesis .
    next
      case (Inr c)
      obtain this1 st1 where c: "c = (this1, st1)" by (cases c)
      have b: "parseMatrix_body (this\<lparr>m_file := f\<rparr>) (st\<lparr>pm_line := line\<rparr>) = Inr (Inr (this1, st1))"
        using \<open>parseMatrix_body (this\<lparr>m_file := f\<rparr>) (st\<lparr>pm_line := line\<rparr>) = Inr r\<close> Inr c by simp
      from "1.prems"(1) g ok b have l: "parseMatrix_loop this1 st1 = Inr (m, this')"
        by (subst (asm) parseMatrix_loop.simps) simp
      show ?thesis
        using "1.IH" [OF g [symmetric] refl _ b refl refl l parseMatrix_body_square(1) [OF q b]] ok
        by simp
    qed
  qed
qed

text \<open>
  \<^verbatim>\<open>parseMatrix\<close> returns a matrix of dimension \<^verbatim>\<open>norbitals\<close>. So with at least one
  orbital, and a stack whose slices have that dimension, \<^verbatim>\<open>join_slices\<close> appends the
  matrix: the case of an operand without elements does not arise.
\<close>

lemma parseMatrix_square:
  "parseMatrix this = Inr (m, this') \<Longrightarrow> square (nat (norbitals this)) m"
  by (auto simp: parseMatrix_def split: if_splits
      dest!: parseMatrix_loop_square [where n = "nat (norbitals this)"] intro: square_zeros)

lemma parsed_matrix_joined:
  assumes "parseMatrix this = Inr (m, this')" and "0 < norbitals this"
    and "list_all (square (nat (norbitals this))) cube"
  shows "join_slices cube m = Inr (cube @ [m])"
  using assms(2) by (intro join_slices_square [OF _ assms(3) parseMatrix_square [OF assms(1)]]) simp

section \<open>Claims about translation vectors and overlap slices\<close>

lemma join_slices_le:
  "join_slices cube m = Inr cube' \<Longrightarrow> length cube' \<le> Suc (length cube)"
  by (auto simp: join_slices_def split: if_splits)

lemma cube_n_elem_filled:
  "list_all (\<lambda>S. 0 < n_elem S) cube \<Longrightarrow> cube \<noteq> [] \<Longrightarrow> 0 < cube_n_elem cube"
  by (cases cube) (simp_all add: cube_n_elem_def)

lemma join_slices_filled:
  assumes "join_slices cube m = Inr cube'" and "list_all (\<lambda>S. 0 < n_elem S) cube"
    and "0 < n_elem m"
  shows "cube' = cube @ [m]"
proof (cases "cube = []")
  case True
  with assms(1) show ?thesis by (simp add: join_slices_def cube_n_elem_def)
next
  case False
  from cube_n_elem_filled [OF assms(2) False] assms(1,3) show ?thesis
    by (auto simp: join_slices_def split: if_splits)
qed

lemma overlap_section_cases:
  assumes "overlap_section ncells this line = Inr (this', line')"
  shows "stacks this' = stacks this \<or>
     (\<exists>cell overlapMatrix cube.
        square (nat (norbitals this)) overlapMatrix \<and>
        join_slices (overlapMatrices this) overlapMatrix = Inr cube \<and>
        bravaisVectors this' = bravaisVectors this @ [cell] \<and> overlapMatrices this' = cube)"
proof -
  from assms obtain line1 where a: "after_marker line ''OVERLAP MATRIX - CELL N.'' = Inr line1"
    by (auto simp: overlap_section_def split: sum.splits)
  from assms a obtain cellIndex x y z where c: "cell_fields line1 = (Some cellIndex, Some x, Some y, Some z)"
    by (auto simp: overlap_section_def split: sum.splits prod.splits option.splits)
  show ?thesis
  proof (cases "cellIndex \<le> ncells")
    case False
    with assms a c show ?thesis by (simp add: overlap_section_def)
  next
    case True
    with assms a c obtain cell vectors overlapMatrix this1 cube where
      v: "join_vert (bravaisVectors this) cell = Inr vectors"
      and p: "parseMatrix (this\<lparr>bravaisVectors := vectors\<rparr>) = Inr (overlapMatrix, this1)"
      and j: "join_slices (overlapMatrices this1) overlapMatrix = Inr cube"
      and r: "this' = this1\<lparr>overlapMatrices := cube\<rparr>"
      by (auto simp: overlap_section_def split: sum.splits prod.splits)
    from parseMatrix_stacks [OF p] have s: "bravaisVectors this1 = vectors"
      "overlapMatrices this1 = overlapMatrices this"
      by (simp_all add: stacks_def)
    from parseMatrix_square [OF p] have q: "square (nat (norbitals this)) overlapMatrix"
      by simp
    from q j s join_vert_snoc [OF v] r show ?thesis by auto
  qed
qed

lemma marker_chain_cases:
  assumes "marker_chain ncells threshold this line = Inr (this', line')"
  shows "stacks this' = stacks this \<or>
     (contains line ''OVERLAP MATRIX'' \<and> overlap_section ncells this line = Inr (this', line'))"
  using assms unfolding marker_chain_def
  by (simp split: if_split_asm sum.split_asm)
     (auto dest: parseBravaisLattice_stacks parseAtoms_stacks parseAtomicBasis_stacks)

lemma scan_line_cases:
  assumes "scan_line ncells threshold this line = Inr this'"
  shows "stacks this' = stacks this \<or>
     (contains line ''OVERLAP MATRIX'' \<and>
      (\<exists>this1 line1. overlap_section ncells this line = Inr (this1, line1) \<and>
         stacks this' = stacks this1))"
proof -
  from assms obtain this1 line1 where m: "marker_chain ncells threshold this line = Inr (this1, line1)"
    by (auto simp: scan_line_def split: sum.splits)
  define this2 where "this2 = (if contains line1 ''BETA'' \<and> contains line1 ''ELECTRONS''
                        then this1\<lparr>alpha_electrons := False\<rparr> else this1)"
  have s2: "stacks this2 = stacks this1"
    by (simp add: this2_def)
  have "stacks this' = stacks this2"
  proof (cases "contains line1 ''FOCK MATRIX''")
    case True
    with assms m have "fock_section ncells this2 line1 = Inr this'"
      unfolding scan_line_def Let_def this2_def by simp
    from fock_section_stacks [OF this] show ?thesis .
  next
    case False
    with assms m have "this' = this2"
      unfolding scan_line_def Let_def this2_def by simp
    then show ?thesis by simp
  qed
  with s2 have e: "stacks this' = stacks this1" by simp
  with marker_chain_cases [OF m] show ?thesis by auto
qed

lemma scan_line_step:
  assumes "scan_line ncells threshold this line = Inr this'"
  shows "stacks this' = stacks this \<or>
     (contains line ''OVERLAP MATRIX'' \<and>
      (\<exists>cell overlapMatrix cube.
        square (nat (norbitals this)) overlapMatrix \<and>
        join_slices (overlapMatrices this) overlapMatrix = Inr cube \<and>
        bravaisVectors this' = bravaisVectors this @ [cell] \<and> overlapMatrices this' = cube))"
proof -
  from scan_line_cases [OF assms] show ?thesis
  proof
    assume "stacks this' = stacks this"
    then show ?thesis ..
  next
    assume "contains line ''OVERLAP MATRIX'' \<and>
      (\<exists>this1 line1. overlap_section ncells this line = Inr (this1, line1) \<and>
         stacks this' = stacks this1)"
    then obtain this1 line1 where c: "contains line ''OVERLAP MATRIX''"
      and o: "overlap_section ncells this line = Inr (this1, line1)"
      and s: "stacks this' = stacks this1" by blast
    from overlap_section_cases [OF o] s c show ?thesis
      by (auto simp: stacks_def)
  qed
qed

lemma scan_line_cover:
  assumes "scan_line ncells threshold this line = Inr this'" and "vectors_cover this"
  shows "vectors_cover this'"
  using scan_line_step [OF assms(1)] assms(2)
  by (auto simp: vectors_cover_def stacks_def n_rows_def dest: join_slices_le)

lemma scan_line_agree:
  assumes "scan_line ncells threshold this line = Inr this'"
    and "stacks_agree this" and "slices_filled this"
    and "0 < norbitals this \<or> \<not> contains line ''OVERLAP MATRIX''"
  shows "stacks_agree this' \<and> slices_filled this' \<and>
         (stacks this' = stacks this \<or> cell_accepted this this')"
proof -
  from scan_line_step [OF assms(1)] show ?thesis
  proof
    assume "stacks this' = stacks this"
    with assms(2,3) show ?thesis
      by (simp add: stacks_agree_def slices_filled_def stacks_def)
  next
    assume "contains line ''OVERLAP MATRIX'' \<and>
      (\<exists>cell overlapMatrix cube.
        square (nat (norbitals this)) overlapMatrix \<and>
        join_slices (overlapMatrices this) overlapMatrix = Inr cube \<and>
        bravaisVectors this' = bravaisVectors this @ [cell] \<and> overlapMatrices this' = cube)"
    then obtain cell overlapMatrix cube where c: "contains line ''OVERLAP MATRIX''"
      and q: "square (nat (norbitals this)) overlapMatrix"
      and j: "join_slices (overlapMatrices this) overlapMatrix = Inr cube"
      and v: "bravaisVectors this' = bravaisVectors this @ [cell]"
      and o: "overlapMatrices this' = cube" by blast
    from c assms(4) have n: "0 < nat (norbitals this)" by simp
    from square_dims(3) [OF q n] n have e: "0 < n_elem overlapMatrix" by simp
    from join_slices_filled [OF j _ e] assms(3)
    have "cube = overlapMatrices this @ [overlapMatrix]"
      by (simp add: slices_filled_def)
    with v o e assms(2,3) show ?thesis
      by (auto simp: stacks_agree_def slices_filled_def cell_accepted_def n_rows_def)
  qed
qed

lemma parseContent_loop_cover:
  "parseContent_loop ncells threshold this = Inr this' \<Longrightarrow> vectors_cover this \<Longrightarrow>
   vectors_cover this'"
proof (induction ncells threshold this rule: parseContent_loop.induct)
  case (1 ncells threshold this)
  obtain ok line f where g: "getline (m_file this) [] = (ok, line, f)"
    by (metis prod_cases3)
  have a: "vectors_cover (this\<lparr>m_file := f\<rparr>)"
    using "1.prems"(2) by (simp add: vectors_cover_def)
  show ?case
  proof (cases ok)
    case False
    with "1.prems"(1) g have "this' = this\<lparr>m_file := f\<rparr>"
      by (subst (asm) parseContent_loop.simps) simp
    with a show ?thesis by simp
  next
    case True
    with "1.prems"(1) g obtain this1 where
      s: "scan_line ncells threshold (this\<lparr>m_file := f\<rparr>) line = Inr this1"
      and l: "parseContent_loop ncells threshold this1 = Inr this'"
      by (subst (asm) parseContent_loop.simps) (auto split: sum.splits)
    from "1.IH" [OF g [symmetric] refl _ s l scan_line_cover [OF s a]] True
    show ?thesis by simp
  qed
qed

lemma parseContent_loop_agree:
  "parseContent_loop ncells threshold this = Inr this' \<Longrightarrow>
   stacks_agree this \<Longrightarrow> slices_filled this \<Longrightarrow> orbitals_at_overlap ncells threshold this \<Longrightarrow>
   stacks_agree this' \<and> slices_filled this'"
proof (induction ncells threshold this rule: parseContent_loop.induct)
  case (1 ncells threshold this)
  obtain ok line f where g: "getline (m_file this) [] = (ok, line, f)"
    by (metis prod_cases3)
  have a: "stacks_agree (this\<lparr>m_file := f\<rparr>)" "slices_filled (this\<lparr>m_file := f\<rparr>)"
    using "1.prems"(2,3) by (simp_all add: stacks_agree_def slices_filled_def)
  show ?case
  proof (cases ok)
    case False
    with "1.prems"(1) g have "this' = this\<lparr>m_file := f\<rparr>"
      by (subst (asm) parseContent_loop.simps) simp
    with a show ?thesis by simp
  next
    case True
    with "1.prems"(1) g obtain this1 where
      s: "scan_line ncells threshold (this\<lparr>m_file := f\<rparr>) line = Inr this1"
      and l: "parseContent_loop ncells threshold this1 = Inr this'"
      by (subst (asm) parseContent_loop.simps) (auto split: sum.splits)
    from "1.prems"(4) g True s have n: "0 < norbitals this \<or> \<not> contains line ''OVERLAP MATRIX''"
      and r: "orbitals_at_overlap ncells threshold this1"
      by (subst (asm) orbitals_at_overlap.simps, auto split: if_splits)+
    from n have n': "0 < norbitals (this\<lparr>m_file := f\<rparr>) \<or> \<not> contains line ''OVERLAP MATRIX''"
      by simp
    from scan_line_agree [OF s a n'] have b: "stacks_agree this1" "slices_filled this1"
      by simp_all
    from "1.IH" [OF g [symmetric] refl _ s l b r] True
    show ?thesis by simp
  qed
qed

lemma orbitals_at_overlap_line:
  "m_file this = file_of (line # rest) \<Longrightarrow>
   orbitals_at_overlap ncells threshold this =
     (if contains line ''OVERLAP MATRIX'' \<and> norbitals this \<le> 0 then False
      else (case scan_line ncells threshold (this\<lparr>m_file := file_of rest\<rparr>) line of
              Inl e \<Rightarrow> True
            | Inr this' \<Rightarrow> orbitals_at_overlap ncells threshold this'))"
  by (subst orbitals_at_overlap.simps) (simp add: getline_def)

lemma orbitals_at_overlap_eof:
  "m_file this = file_of [] \<Longrightarrow> orbitals_at_overlap ncells threshold this"
  by (subst orbitals_at_overlap.simps) (simp add: getline_def)

text \<open>
  Claim C10 (as many translation vectors as overlap slices, throughout the scan and in
  the record of a run that is not magnetic) fails when no orbital is declared. With
  \<^verbatim>\<open>norbitals = 0\<close> the matrix that \<^verbatim>\<open>parseMatrix\<close> returns has no element, and
  \<^verbatim>\<open>join_slices\<close> then gives a cube of one slice whatever the stack held: each accepted
  overlap section appends a translation vector, and the number of slices stays 1. From a
  fresh object, with \<^verbatim>\<open>ncells = 2\<close>, the scan and the constructor return with 2 vectors
  and 1 slice.
\<close>

theorem overlap_slices_fall_behind:
  "stacks_agree (new_config (file_of ex_no_orbitals))
   \<and> (\<exists>this'. parseContent 2 100 (new_config (file_of ex_no_orbitals)) = Inr this'
         \<and> n_rows (bravaisVectors this') = 2 \<and> length (overlapMatrices this') = 1
         \<and> \<not> stacks_agree this')
   \<and> (\<exists>this'. CrystalDFTConfiguration 2 100 (new_config (file_of ex_no_orbitals)) = Inr this'
         \<and> \<not> MAGNETIC_FLAG this'
         \<and> n_rows (info_bravaisVectors (systemInfo this')) = 2
         \<and> length (info_overlap (systemInfo this')) = 1)"
  by (simp add: ex_no_orbitals_def new_config_def stacks_agree_def scan_eval pm_eval
      eval_nat_numeral Let_def)

text \<open>
  Claim C10 as amended: the translation vectors and the overlap slices are equal in
  number as long as every overlap section is read with at least one orbital, and the
  vectors are never fewer than the slices. From an object with as many vectors as
  slices, all slices with elements: a line of the scan, read with a positive
  \<^verbatim>\<open>norbitals\<close> if it holds \<^verbatim>\<open>OVERLAP MATRIX\<close>, either leaves both stacks as they are
  or appends one row and one slice; the Fock branch leaves both as they are; when every
  overlap line of the scan is read with a positive \<^verbatim>\<open>norbitals\<close>, the numbers agree when
  \<^verbatim>\<open>parseContent\<close> returns, and in the record written by \<^verbatim>\<open>mapContent\<close> unless the
  magnetic flag is set. Without any condition on the orbitals, an object with no more
  slices than vectors is still so when \<^verbatim>\<open>parseContent\<close> returns.
\<close>

theorem vectors_follow_overlap_slices:
  "(stacks_agree this \<and> slices_filled this \<and>
    (0 < norbitals this \<or> \<not> contains line ''OVERLAP MATRIX'') \<and>
    scan_line ncells threshold this line = Inr this1 \<longrightarrow>
      stacks_agree this1 \<and> slices_filled this1 \<and>
      (stacks this1 = stacks this \<or> cell_accepted this this1))
   \<and> (fock_section ncells this line = Inr this2 \<longrightarrow> stacks this2 = stacks this)
   \<and> (stacks_agree this \<and> slices_filled this \<and> orbitals_at_overlap ncells threshold this \<and>
       parseContent ncells threshold this = Inr this3 \<longrightarrow>
         stacks_agree this3 \<and> slices_filled this3)
   \<and> (stacks_agree this \<and> slices_filled this \<and> orbitals_at_overlap ncells threshold this \<and>
       CrystalDFTConfiguration ncells threshold this = Inr this4 \<and> \<not> MAGNETIC_FLAG this4 \<longrightarrow>
         n_rows (info_bravaisVectors (systemInfo this4)) = length (info_overlap (systemInfo this4)))
   \<and> (vectors_cover this \<and> parseContent ncells threshold this = Inr this5 \<longrightarrow>
         vectors_cover this5)"
proof (intro conjI impI)
  assume h: "stacks_agree this \<and> slices_filled this \<and>
    (0 < norbitals this \<or> \<not> contains line ''OVERLAP MATRIX'') \<and>
    scan_line ncells threshold this line = Inr this1"
  then have s: "scan_line ncells threshold this line = Inr this1" and a: "stacks_agree this"
    and f: "slices_filled this" and n: "0 < norbitals this \<or> \<not> contains line ''OVERLAP MATRIX''"
    by simp_all
  from scan_line_agree [OF s a f n]
  show "stacks_agree this1" "slices_filled this1"
    "stacks this1 = stacks this \<or> cell_accepted this this1" by simp_all
next
  assume "fock_section ncells this line = Inr this2"
  from fock_section_stacks [OF this] show "stacks this2 = stacks this" .
next
  assume h: "stacks_agree this \<and> slices_filled this \<and> orbitals_at_overlap ncells threshold this \<and>
       parseContent ncells threshold this = Inr this3"
  then have p: "parseContent_loop ncells threshold this = Inr this3"
    by (simp add: parseContent_def)
  from parseContent_loop_agree [OF p] h
  show "stacks_agree this3" "slices_filled this3" by simp_all
next
  assume h: "stacks_agree this \<and> slices_filled this \<and> orbitals_at_overlap ncells threshold this \<and>
       CrystalDFTConfiguration ncells threshold this = Inr this4 \<and> \<not> MAGNETIC_FLAG this4"
  then have c: "CrystalDFTConfiguration ncells threshold this = Inr this4"
    and m: "\<not> MAGNETIC_FLAG this4" by simp_all
  from c obtain this3 where p: "parseContent_loop ncells threshold this = Inr this3"
    and mc: "mapContent this3 = Inr this4"
    by (auto simp: CrystalDFTConfiguration_def parseContent_def split: sum.splits)
  have a: "stacks_agree this3"
    using parseContent_loop_agree [OF p] h by simp
  have "\<not> MAGNETIC_FLAG this3"
  proof
    assume f: "MAGNETIC_FLAG this3"
    show False
    proof (cases "SOC_FLAG this3")
      case True
      with mc f m show False by (auto simp: mapContent_def Let_def)
    next
      case False
      with mc f obtain this5 nov where l: "magnetic_loop (length (alphaMatrices this3)) 0 this3 [] = Inr (this5, nov)"
        and "MAGNETIC_FLAG this4 = MAGNETIC_FLAG this5"
        by (auto simp: mapContent_def Let_def split: sum.splits)
      moreover have "MAGNETIC_FLAG this5 = MAGNETIC_FLAG this3"
        using magnetic_loop_flag [OF l] .
      ultimately show False using f m by simp
    qed
  qed
  from mapContent_agree [OF mc this] a
  show "n_rows (info_bravaisVectors (systemInfo this4)) = length (info_overlap (systemInfo this4))"
    by (simp add: stacks_agree_def)
next
  assume h: "vectors_cover this \<and> parseContent ncells threshold this = Inr this5"
  then have p: "parseContent_loop ncells threshold this = Inr this5"
    by (simp add: parseContent_def)
  from parseContent_loop_cover [OF p] h show "vectors_cover this5" by simp
qed

text \<open>
  Witness for the amended C10: the run on the small file with one orbital, and its
  overlap and Fock sections taken alone.
\<close>

theorem vectors_follow_overlap_slices_witness:
  "stacks_agree (new_config (file_of ex_run)) \<and> slices_filled (new_config (file_of ex_run))
   \<and> vectors_cover (new_config (file_of ex_run))
   \<and> orbitals_at_overlap 1 100 (new_config (file_of ex_run))
   \<and> stacks_agree ex_block \<and> slices_filled ex_block \<and> 0 < norbitals ex_block
   \<and> (\<exists>this'. scan_line 1 100 ex_block '' OVERLAP MATRIX - CELL N.   1(  0  0  0)'' = Inr this'
         \<and> stacks this' = ([[0, 0, 0]], [[[1]]]) \<and> stacks_agree this' \<and> slices_filled this'
         \<and> cell_accepted ex_block this')
   \<and> (\<exists>this'. fock_section 1 ex_block '' FOCK MATRIX - CELL N.   1(  0  0  0)'' = Inr this'
         \<and> fockMatrices this' = [[[1]]] \<and> stacks this' = stacks ex_block)
   \<and> (\<exists>this'. parseContent 1 100 (new_config (file_of ex_run)) = Inr this'
         \<and> fockMatrices this' = [[[- 1 / 2]]] \<and> stacks_agree this' \<and> slices_filled this'
         \<and> vectors_cover this')
   \<and> (\<exists>this'. CrystalDFTConfiguration 1 100 (new_config (file_of ex_run)) = Inr this'
         \<and> \<not> MAGNETIC_FLAG this'
         \<and> info_overlap (systemInfo this') = [[[1]]]
         \<and> n_rows (info_bravaisVectors (systemInfo this')) = length (info_overlap (systemInfo this')))"
proof -
  have a: "stacks_agree (new_config (file_of ex_run))" "slices_filled (new_config (file_of ex_run))"
    "vectors_cover (new_config (file_of ex_run))"
    and b: "stacks_agree ex_block" "slices_filled ex_block" "0 < norbitals ex_block"
    by (simp_all add: stacks_agree_def slices_filled_def vectors_cover_def new_config_def
        ex_block_def n_rows_def)
  have r: "orbitals_at_overlap 1 100 (new_config (file_of ex_run))"
    by (simp add: ex_run_def new_config_def orbitals_at_overlap_line orbitals_at_overlap_eof
        scan_eval pm_eval eval_nat_numeral Let_def complex_eq_iff)
  have "\<exists>this'. scan_line 1 100 ex_block '' OVERLAP MATRIX - CELL N.   1(  0  0  0)'' = Inr this'
         \<and> stacks this' = ([[0, 0, 0]], [[[1]]])"
    by (simp add: ex_block_def new_config_def stacks_def scan_eval pm_eval eval_nat_numeral
        Let_def complex_eq_iff)
  then obtain t1 where t1: "scan_line 1 100 ex_block '' OVERLAP MATRIX - CELL N.   1(  0  0  0)'' = Inr t1"
    "stacks t1 = ([[0, 0, 0]], [[[1]]])" by blast
  have e: "stacks ex_block = ([], [])"
    by (simp add: ex_block_def new_config_def stacks_def)
  have "\<exists>this'. fock_section 1 ex_block '' FOCK MATRIX - CELL N.   1(  0  0  0)'' = Inr this'
         \<and> fockMatrices this' = [[[1]]]"
    by (simp add: ex_block_def new_config_def scan_eval pm_eval eval_nat_numeral
        Let_def complex_eq_iff)
  then obtain t2 where t2: "fock_section 1 ex_block '' FOCK MATRIX - CELL N.   1(  0  0  0)'' = Inr t2"
    "fockMatrices t2 = [[[1]]]" by blast
  have "\<exists>this'. parseContent 1 100 (new_config (file_of ex_run)) = Inr this'
         \<and> fockMatrices this' = [[[- 1 / 2]]]"
    by (simp add: ex_run_def new_config_def scan_eval pm_eval eval_nat_numeral Let_def
        complex_eq_iff)
  then obtain t3 where t3: "parseContent 1 100 (new_config (file_of ex_run)) = Inr t3"
    "fockMatrices t3 = [[[- 1 / 2]]]" by blast
  have "\<exists>this'. CrystalDFTConfiguration 1 100 (new_config (file_of ex_run)) = Inr this'
         \<and> \<not> MAGNETIC_FLAG this' \<and> info_overlap (systemInfo this') = [[[1]]]"
    by (simp add: ex_run_def new_config_def scan_eval pm_eval eval_nat_numeral Let_def
        complex_eq_iff)
  then obtain t4 where t4: "CrystalDFTConfiguration 1 100 (new_config (file_of ex_run)) = Inr t4"
    "\<not> MAGNETIC_FLAG t4" "info_overlap (systemInfo t4) = [[[1]]]" by blast
  note w1 = vectors_follow_overlap_slices [where this = ex_block and ncells = 1
      and threshold = 100 and line = "'' OVERLAP MATRIX - CELL N.   1(  0  0  0)''"
      and ?this1.0 = t1]
  note w2 = vectors_follow_overlap_slices [where this = ex_block and ncells = 1
      and line = "'' FOCK MATRIX - CELL N.   1(  0  0  0)''" and ?this2.0 = t2]
  note w3 = vectors_follow_overlap_slices [where this = "new_config (file_of ex_run)"
      and ncells = 1 and threshold = 100 and ?this3.0 = t3 and ?this4.0 = t4 and ?this5.0 = t3]
  from w1 b t1 e have c1: "stacks_agree t1 \<and> slices_filled t1 \<and> cell_accepted ex_block t1"
    by auto
  from w2 t2 have c2: "stacks t2 = stacks ex_block" by blast
  from w3 a r t3 have c3: "stacks_agree t3 \<and> slices_filled t3 \<and> vectors_cover t3" by blast
  from w3 a r t4 have c4: "n_rows (info_bravaisVectors (systemInfo t4)) = length (info_overlap (systemInfo t4))"
    by blast
  have x1: "\<exists>this'. scan_line 1 100 ex_block '' OVERLAP MATRIX - CELL N.   1(  0  0  0)'' = Inr this'
         \<and> stacks this' = ([[0, 0, 0]], [[[1]]]) \<and> stacks_agree this' \<and> slices_filled this'
         \<and> cell_accepted ex_block this'"
    using t1 c1 by blast
  have x2: "\<exists>this'. fock_section 1 ex_block '' FOCK MATRIX - CELL N.   1(  0  0  0)'' = Inr this'
         \<and> fockMatrices this' = [[[1]]] \<and> stacks this' = stacks ex_block"
    using t2 c2 by blast
  have x3: "\<exists>this'. parseContent 1 100 (new_config (file_of ex_run)) = Inr this'
         \<and> fockMatrices this' = [[[- 1 / 2]]] \<and> stacks_agree this' \<and> slices_filled this'
         \<and> vectors_cover this'"
    using t3 c3 by blast
  have x4: "\<exists>this'. CrystalDFTConfiguration 1 100 (new_config (file_of ex_run)) = Inr this'
         \<and> \<not> MAGNETIC_FLAG this'
         \<and> info_overlap (systemInfo this') = [[[1]]]
         \<and> n_rows (info_bravaisVectors (systemInfo this')) = length (info_overlap (systemInfo this'))"
    using t4 c4 by blast
  from a r b x1 x2 x3 x4 show ?thesis by (intro conjI)
qed

end
